theory Spec2Isabelle
  imports Complex_Main "HOL-Library.Log_Nat"
begin

section \<open>Python values\<close>

subsection \<open>Strings\<close>

text \<open>
  A Python \<open>str\<close> is a sequence of Unicode code points, and \<open>str.strip\<close> and the
  regular expressions of \<open>re\<close> work on code points, so a string is a list of code points
  (natural numbers).  \<open>py_str\<close> embeds an ASCII literal.
\<close>

type_synonym pystr = "nat list"

definition py_str :: "string \<Rightarrow> pystr" where
  "py_str s = map of_char s"

text \<open>
  \<open>str.strip()\<close> without an argument removes leading and trailing whitespace: the code
  points for which \<open>str.isspace\<close> holds.  Below 128 CPython reads them off a fixed table
  (TAB, LF, VT, FF, CR, FS, GS, RS, US, space); above, they are the code points of
  bidirectional type WS, B or S and of category Zs.
\<close>

definition py_isspace :: "nat \<Rightarrow> bool" where
  "py_isspace c \<longleftrightarrow>
     (9 \<le> c \<and> c \<le> 13) \<or> (28 \<le> c \<and> c \<le> 32) \<or> c = 133 \<or> c = 160 \<or> c = 5760 \<or>
     (8192 \<le> c \<and> c \<le> 8202) \<or> c = 8232 \<or> c = 8233 \<or> c = 8239 \<or> c = 8287 \<or> c = 12288"

definition py_strip :: "pystr \<Rightarrow> pystr" where
  "py_strip s = rev (dropWhile py_isspace (rev (dropWhile py_isspace s)))"

subsection \<open>Integers and their formatting\<close>

text \<open>
  Python integers are unbounded: \<open>int\<close>.  \<open>dec_digits\<close> is the decimal numeral of a
  natural number, \<open>py_str_int\<close> is \<open>str(i)\<close> (what \<open>f"{i}"\<close> inserts), and
  \<open>py_format_0\<close> is the format specification \<open>0w\<close> of \<open>f"{i:02}"\<close> and \<open>f"{i:03}"\<close>:
  the sign first, then zeros up to the width \<open>w\<close>, then the digits; a numeral longer
  than the width is not cut.
\<close>

fun dec_digits :: "nat \<Rightarrow> pystr" where
  "dec_digits n = (if n < 10 then [48 + n] else dec_digits (n div 10) @ [48 + n mod 10])"

declare dec_digits.simps [simp del]

definition py_str_int :: "int \<Rightarrow> pystr" where
  "py_str_int i = (if i < 0 then 45 # dec_digits (nat (- i)) else dec_digits (nat i))"

definition py_format_0 :: "nat \<Rightarrow> int \<Rightarrow> pystr" where
  "py_format_0 w i =
     (let d = dec_digits (nat \<bar>i\<bar>);
          sign = (if i < 0 then [45] else [])
      in sign @ replicate (w - length sign - length d) 48 @ d)"

subsection \<open>Floats\<close>

text \<open>
  A Python \<open>float\<close> is an IEEE 754 binary64 number.  A finite one is the rational number
  it denotes; the two infinities and NaN are values of their own.  (The sign of a zero is
  not kept: \<open>format_srt_time\<close> reads every float through \<open>int\<close>, a comparison with zero
  or a truth test, and none of them sees it.)
\<close>

datatype pyfloat = Fin rat | PosInf | NegInf | NaN

datatype py_error = ValueError | OverflowError

text \<open>
  Rounding to nearest, ties to even, at 53 bits of precision: \<open>flog2 r\<close> is the exponent
  \<open>e\<close> of the binade of \<open>r\<close> (\<open>2^e \<le> |r| < 2^(e+1)\<close>), \<open>quantum_exp r\<close> the exponent of the
  spacing of the doubles there (subnormal below \<open>2^-1022\<close>), and \<open>rnd r\<close> the multiple of
  that spacing nearest to \<open>r\<close>.  \<open>fl\<close> is the result of an arithmetic operation whose
  exact value is \<open>r\<close>: the rounded value, or an infinity when that is beyond the largest
  double.  It is also the value of a decimal literal of the source text.
\<close>

definition flog2 :: "rat \<Rightarrow> int" where
  "flog2 r =
     (let (p, q) = quotient_of \<bar>r\<bar>;
          k = bitlen p - bitlen q
      in if 2 powi k \<le> \<bar>r\<bar> then k else k - 1)"

definition round_half_even :: "rat \<Rightarrow> int" where
  "round_half_even x =
     (let f = \<lfloor>x\<rfloor>; d = x - of_int f
      in if d < 1 / 2 then f else if 1 / 2 < d then f + 1
         else if even f then f else f + 1)"

definition quantum_exp :: "rat \<Rightarrow> int" where
  "quantum_exp r = max (flog2 r) (- 1022) - 52"

definition rnd :: "rat \<Rightarrow> rat" where
  "rnd r =
     (if r = 0 then 0
      else of_int (round_half_even (r / 2 powi quantum_exp r)) * 2 powi quantum_exp r)"

definition max_double :: rat where
  "max_double = (2 ^ 53 - 1) * 2 ^ 971"

definition fl :: "rat \<Rightarrow> pyfloat" where
  "fl r =
     (let v = rnd r
      in if max_double < v then PosInf else if v < - max_double then NegInf else Fin v)"

definition is_double :: "rat \<Rightarrow> bool" where
  "is_double x \<longleftrightarrow> rnd x = x \<and> \<bar>x\<bar> \<le> max_double"

text \<open>The arithmetic of IEEE 754 on these values.\<close>

fun float_neg :: "pyfloat \<Rightarrow> pyfloat" where
  "float_neg (Fin a) = Fin (- a)"
| "float_neg PosInf = NegInf"
| "float_neg NegInf = PosInf"
| "float_neg NaN = NaN"

fun float_add :: "pyfloat \<Rightarrow> pyfloat \<Rightarrow> pyfloat" where
  "float_add (Fin a) (Fin b) = fl (a + b)"
| "float_add NaN y = NaN"
| "float_add x NaN = NaN"
| "float_add PosInf NegInf = NaN"
| "float_add NegInf PosInf = NaN"
| "float_add PosInf y = PosInf"
| "float_add NegInf y = NegInf"
| "float_add (Fin a) y = y"

definition float_sub :: "pyfloat \<Rightarrow> pyfloat \<Rightarrow> pyfloat" where
  "float_sub x y = float_add x (float_neg y)"

fun float_mul :: "pyfloat \<Rightarrow> pyfloat \<Rightarrow> pyfloat" where
  "float_mul (Fin a) (Fin b) = fl (a * b)"
| "float_mul NaN y = NaN"
| "float_mul x NaN = NaN"
| "float_mul (Fin a) y = (if a = 0 then NaN else if 0 < a then y else float_neg y)"
| "float_mul x (Fin b) = (if b = 0 then NaN else if 0 < b then x else float_neg x)"
| "float_mul x y = (if x = y then PosInf else NegInf)"

text \<open>Division by a finite divisor other than zero, which is all the source needs.\<close>

fun float_div :: "pyfloat \<Rightarrow> rat \<Rightarrow> pyfloat" where
  "float_div (Fin a) w = fl (a / w)"
| "float_div NaN w = NaN"
| "float_div x w = (if 0 < w then x else float_neg x)"

text \<open>
  C's \<open>fmod\<close>: the remainder of the division truncated towards zero, which is always a
  double and so is never rounded; and C's \<open>floor\<close>.
\<close>

definition trunc :: "rat \<Rightarrow> int" where
  "trunc r = (if 0 \<le> r then \<lfloor>r\<rfloor> else \<lceil>r\<rceil>)"

fun c_fmod :: "pyfloat \<Rightarrow> rat \<Rightarrow> pyfloat" where
  "c_fmod (Fin a) w = Fin (a - w * of_int (trunc (a / w)))"
| "c_fmod x w = NaN"

fun c_floor :: "pyfloat \<Rightarrow> pyfloat" where
  "c_floor (Fin a) = Fin (of_int \<lfloor>a\<rfloor>)"
| "c_floor x = x"

fun float_lt0 :: "pyfloat \<Rightarrow> bool" where
  "float_lt0 (Fin a) = (a < 0)"
| "float_lt0 NegInf = True"
| "float_lt0 x = False"

fun float_gt :: "pyfloat \<Rightarrow> rat \<Rightarrow> bool" where
  "float_gt (Fin a) b = (b < a)"
| "float_gt PosInf b = True"
| "float_gt x b = False"

text \<open>
  Python's \<open>%\<close> and \<open>//\<close> on floats, as CPython's \<open>float_rem\<close> and \<open>_float_div_mod\<close>
  compute them, for a finite divisor \<open>w\<close> other than zero (the source divides by the
  literals 3600 and 60, so the \<open>ZeroDivisionError\<close> of the two operators cannot arise):
  the remainder of \<open>fmod\<close> gets the sign of the divisor, and the quotient is computed
  from it in floating point and snapped to the nearest integral value.
\<close>

definition float_rem :: "pyfloat \<Rightarrow> rat \<Rightarrow> pyfloat" where
  "float_rem v w =
     (let m = c_fmod v w
      in if m \<noteq> Fin 0 then (if (w < 0) \<noteq> float_lt0 m then float_add m (Fin w) else m)
         else Fin 0)"

definition snap_quotient :: "pyfloat \<Rightarrow> pyfloat" where
  "snap_quotient d =
     (if d \<noteq> Fin 0
      then (let f = c_floor d
            in if float_gt (float_sub d f) (1 / 2) then float_add f (Fin 1) else f)
      else Fin 0)"

definition float_floordiv :: "pyfloat \<Rightarrow> rat \<Rightarrow> pyfloat" where
  "float_floordiv v w =
     (let m = c_fmod v w;
          d = float_div (float_sub v m) w
      in snap_quotient
           (if m \<noteq> Fin 0 \<and> (w < 0) \<noteq> float_lt0 m then float_sub d (Fin 1) else d))"

text \<open>
  \<open>int(x)\<close> truncates towards zero; it raises \<open>ValueError\<close> on NaN and \<open>OverflowError\<close>
  on an infinity.  An integer operand of a float operation is converted to the nearest
  double, with \<open>OverflowError\<close> when it is beyond the doubles.
\<close>

fun py_int :: "pyfloat \<Rightarrow> py_error + int" where
  "py_int (Fin a) = Inr (trunc a)"
| "py_int NaN = Inl ValueError"
| "py_int x = Inl OverflowError"

definition float_of_int :: "int \<Rightarrow> py_error + pyfloat" where
  "float_of_int i = (case fl (of_int i) of Fin v \<Rightarrow> Inr (Fin v) | x \<Rightarrow> Inl OverflowError)"

section \<open>The SRT codec\<close>

subsection \<open>Timestamps\<close>

text \<open>
  \<open>format_srt_time\<close> of \<open>lesson_pipeline.py\<close>:
  \<^verbatim>\<open>
  h = int(seconds // 3600)
  m = int((seconds % 3600) // 60)
  s = int(seconds % 60)
  ms = int((seconds - int(seconds)) * 1000)
  return f"{h:02}:{m:02}:{s:02},{ms:03}"\<close>
\<close>

definition format_srt_time :: "pyfloat \<Rightarrow> py_error + pystr" where
  "format_srt_time seconds =
     (case py_int (float_floordiv seconds 3600) of Inl e \<Rightarrow> Inl e | Inr h \<Rightarrow>
      case py_int (float_floordiv (float_rem seconds 3600) 60) of Inl e \<Rightarrow> Inl e | Inr m \<Rightarrow>
      case py_int (float_rem seconds 60) of Inl e \<Rightarrow> Inl e | Inr s \<Rightarrow>
      case py_int seconds of Inl e \<Rightarrow> Inl e | Inr i \<Rightarrow>
      case float_of_int i of Inl e \<Rightarrow> Inl e | Inr fi \<Rightarrow>
      case py_int (float_mul (float_sub seconds fi) (Fin 1000)) of Inl e \<Rightarrow> Inl e | Inr ms \<Rightarrow>
        Inr (py_format_0 2 h @ py_str '':'' @ py_format_0 2 m @ py_str '':'' @
             py_format_0 2 s @ py_str '','' @ py_format_0 3 ms))"

text \<open>The same function of \<open>extract_mp3.py\<close>.\<close>

definition format_srt_time_mp3 :: "pyfloat \<Rightarrow> py_error + pystr" where
  "format_srt_time_mp3 seconds =
     (case py_int (float_floordiv seconds 3600) of Inl e \<Rightarrow> Inl e | Inr h \<Rightarrow>
      case py_int (float_floordiv (float_rem seconds 3600) 60) of Inl e \<Rightarrow> Inl e | Inr m \<Rightarrow>
      case py_int (float_rem seconds 60) of Inl e \<Rightarrow> Inl e | Inr s \<Rightarrow>
      case py_int seconds of Inl e \<Rightarrow> Inl e | Inr i \<Rightarrow>
      case float_of_int i of Inl e \<Rightarrow> Inl e | Inr fi \<Rightarrow>
      case py_int (float_mul (float_sub seconds fi) (Fin 1000)) of Inl e \<Rightarrow> Inl e | Inr ms \<Rightarrow>
        Inr (py_format_0 2 h @ py_str '':'' @ py_format_0 2 m @ py_str '':'' @
             py_format_0 2 s @ py_str '','' @ py_format_0 3 ms))"

subsection \<open>Writing the segments\<close>

text \<open>
  A segment of Whisper's result, with the four keys the loop reads: \<open>id\<close>, \<open>start\<close>,
  \<open>end\<close> and \<open>text\<close>.
\<close>

record segment =
  seg_id :: int
  seg_start :: pyfloat
  seg_end :: pyfloat
  seg_text :: pystr

text \<open>
  The body of the loop of \<open>transcribe_audio\<close> in \<open>lesson_pipeline.py\<close>, on the text \<open>f\<close>
  written to the file so far:
  \<^verbatim>\<open>
  f.write(f"{segment['id']+1}\n")
  start = segment['start']
  end = segment['end']
  f.write(f"{format_srt_time(start)} --> {format_srt_time(end)}\n")
  f.write(segment['text'].strip() + "\n\n")\<close>
  An exception leaves the loop with what was written before it (\<open>Inl\<close>).
\<close>

definition write_segment :: "pystr \<Rightarrow> segment \<Rightarrow> py_error \<times> pystr + pystr" where
  "write_segment f segment =
     (let f = f @ py_str_int (seg_id segment + 1) @ py_str ''\<newline>'' in
      case format_srt_time (seg_start segment) of Inl e \<Rightarrow> Inl (e, f) | Inr a \<Rightarrow>
      case format_srt_time (seg_end segment) of Inl e \<Rightarrow> Inl (e, f) | Inr b \<Rightarrow>
        Inr (f @ a @ py_str '' --> '' @ b @ py_str ''\<newline>'' @
             py_strip (seg_text segment) @ py_str ''\<newline>\<newline>''))"

fun write_segments :: "pystr \<Rightarrow> segment list \<Rightarrow> py_error \<times> pystr + pystr" where
  "write_segments f [] = Inr f"
| "write_segments f (segment # segments) =
     (case write_segment f segment of Inl e \<Rightarrow> Inl e | Inr f' \<Rightarrow> write_segments f' segments)"

text \<open>The file is opened for writing, so it starts empty: the spec's \<open>encode\<close>.\<close>

definition encode :: "segment list \<Rightarrow> py_error \<times> pystr + pystr" where
  "encode segments = write_segments [] segments"

text \<open>The body of the same loop in \<open>extract_mp3.py\<close>.\<close>

definition write_segment_mp3 :: "pystr \<Rightarrow> segment \<Rightarrow> py_error \<times> pystr + pystr" where
  "write_segment_mp3 f segment =
     (let f = f @ py_str_int (seg_id segment + 1) @ py_str ''\<newline>'' in
      case format_srt_time_mp3 (seg_start segment) of Inl e \<Rightarrow> Inl (e, f) | Inr a \<Rightarrow>
      case format_srt_time_mp3 (seg_end segment) of Inl e \<Rightarrow> Inl (e, f) | Inr b \<Rightarrow>
        Inr (f @ a @ py_str '' --> '' @ b @ py_str ''\<newline>'' @
             py_strip (seg_text segment) @ py_str ''\<newline>\<newline>''))"

subsection \<open>From SRT to text\<close>

text \<open>
  In a \<open>str\<close> pattern \<open>\d\<close> matches the Unicode decimal digits: the ASCII digits, and above
  the ASCII range the code points of category Nd, a set that grows with the versions of
  Unicode and is the parameter \<open>nd\<close> here.
\<close>

definition re_digit :: "(nat \<Rightarrow> bool) \<Rightarrow> nat \<Rightarrow> bool" where
  "re_digit nd c \<longleftrightarrow> (48 \<le> c \<and> c \<le> 57) \<or> (128 \<le> c \<and> nd c)"

text \<open>
  The pattern of \<open>srt_to_text\<close> is
  \<^verbatim>\<open>\d+\n\d{2}:\d{2}:\d{2},\d{3} --> \d{2}:\d{2}:\d{2},\d{3}\n\<close>
  After \<open>\d+\<close> every position of it takes exactly one character: a digit or a literal.
\<close>

datatype re_item = Digit | Lit nat

definition timing_items :: "re_item list" where
  "timing_items =
     [Digit, Digit, Lit 58, Digit, Digit, Lit 58, Digit, Digit, Lit 44, Digit, Digit, Digit]"

definition markup_items :: "re_item list" where
  "markup_items =
     Lit 10 # timing_items @ map Lit (py_str '' --> '') @ timing_items @ [Lit 10]"

fun match_items :: "(nat \<Rightarrow> bool) \<Rightarrow> re_item list \<Rightarrow> pystr \<Rightarrow> pystr option" where
  "match_items nd [] s = Some s"
| "match_items nd (p # ps) [] = None"
| "match_items nd (p # ps) (c # cs) =
     (if (case p of Digit \<Rightarrow> re_digit nd c | Lit l \<Rightarrow> c = l) then match_items nd ps cs
      else None)"

text \<open>
  A match of the whole pattern at the head of \<open>s\<close>, with the text after it.  \<open>\d+\<close> is
  greedy, and the newline that follows it is not a digit, so the only run of digits that
  can be followed by the rest of the pattern is the longest one.
\<close>

definition match_markup :: "(nat \<Rightarrow> bool) \<Rightarrow> pystr \<Rightarrow> pystr option" where
  "match_markup nd s =
     (if takeWhile (re_digit nd) s = [] then None
      else match_items nd markup_items (dropWhile (re_digit nd) s))"

text \<open>
  \<open>re.sub(pattern, "", s)\<close>: the matches are looked for from left to right, each search
  starting where the last match ended, and every match is replaced by the empty string.
\<close>

function sub_markup :: "(nat \<Rightarrow> bool) \<Rightarrow> pystr \<Rightarrow> pystr" where
  "sub_markup nd [] = []"
| "sub_markup nd (c # cs) =
     (case match_markup nd (c # cs) of
        Some rest \<Rightarrow> sub_markup nd rest
      | None \<Rightarrow> c # sub_markup nd cs)"
  by pat_completeness auto
termination
proof (relation "measure (\<lambda>(nd, s). length s)")
  show "wf (measure (\<lambda>(nd, s). length s))" by simp
next
  fix nd :: "nat \<Rightarrow> bool" and c :: nat and cs rest :: pystr
  assume m: "match_markup nd (c # cs) = Some rest"
  have items: "length r \<le> length s" if "match_items nd ps s = Some r" for ps s r
    using that by (induction nd ps s rule: match_items.induct) (auto split: if_splits)
  from m have "takeWhile (re_digit nd) (c # cs) \<noteq> []"
    and r: "match_items nd markup_items (dropWhile (re_digit nd) (c # cs)) = Some rest"
    by (auto simp: match_markup_def split: if_splits)
  then have "re_digit nd c" by (auto split: if_splits)
  then have "length (dropWhile (re_digit nd) (c # cs)) \<le> length cs"
    by (simp add: length_dropWhile_le)
  then have "length rest < length (c # cs)" using items [OF r] by simp
  then show "((nd, rest), (nd, c # cs)) \<in> measure (\<lambda>(nd, s). length s)" by simp
next
  fix nd :: "nat \<Rightarrow> bool" and c :: nat and cs :: pystr
  show "((nd, cs), (nd, c # cs)) \<in> measure (\<lambda>(nd, s). length s)" by simp
qed

text \<open>
  \<open>re.sub(r"\n{2,}", "\n", text)\<close>: every maximal run of two or more newlines becomes
  one newline.
\<close>

function sub_newlines :: "pystr \<Rightarrow> pystr" where
  "sub_newlines [] = []"
| "sub_newlines (c # cs) =
     (if 2 \<le> length (takeWhile (\<lambda>x. x = 10) (c # cs))
      then 10 # sub_newlines (dropWhile (\<lambda>x. x = 10) (c # cs))
      else c # sub_newlines cs)"
  by pat_completeness auto
termination
proof (relation "measure length")
  show "wf (measure length)" by simp
next
  fix c :: nat and cs :: pystr
  assume "2 \<le> length (takeWhile (\<lambda>x. x = 10) (c # cs))"
  then have "c = 10" by (auto split: if_splits)
  then have "length (dropWhile (\<lambda>x. x = 10) (c # cs)) \<le> length cs"
    by (simp add: length_dropWhile_le)
  then show "(dropWhile (\<lambda>x. x = 10) (c # cs), c # cs) \<in> measure length" by simp
next
  fix c :: nat and cs :: pystr
  show "(cs, c # cs) \<in> measure length" by simp
qed

text \<open>
  \<open>srt_to_text\<close> of \<open>lesson_pipeline.py\<close>, from the text read from the SRT file to the
  text written to the output file: the spec's \<open>decode_to_text\<close>.
  \<^verbatim>\<open>
  text = re.sub(r"\d+\n\d{2}:\d{2}:\d{2},\d{3} --> \d{2}:\d{2}:\d{2},\d{3}\n", "", srt_content)
  text = re.sub(r"\n{2,}", "\n", text)
  f.write(text.strip())\<close>
\<close>

definition srt_to_text :: "(nat \<Rightarrow> bool) \<Rightarrow> pystr \<Rightarrow> pystr" where
  "srt_to_text nd srt_content = py_strip (sub_newlines (sub_markup nd srt_content))"

text \<open>Whether the pattern matches somewhere in \<open>s\<close> (\<open>re.search\<close>).\<close>

fun has_markup :: "(nat \<Rightarrow> bool) \<Rightarrow> pystr \<Rightarrow> bool" where
  "has_markup nd [] = False"
| "has_markup nd (c # cs) = (match_markup nd (c # cs) \<noteq> None \<or> has_markup nd cs)"

text \<open>
  The set of decimal digits with none above the ASCII range; the theorems hold for every
  such set, and the examples are run on this one.
\<close>

definition ascii_digits_only :: "nat \<Rightarrow> bool" where
  "ascii_digits_only c = False"

subsection \<open>Notions of the specification\<close>

text \<open>
  A blank line inside a text is a pair of consecutive newlines.  \<open>split_blank\<close> cuts a
  text at every such pair, from left to right (Python's \<open>text.split("\n\n")\<close>), and
  \<open>splits_into_blocks n out\<close> says that \<open>out\<close> is \<open>n\<close> blocks, each followed by exactly
  one blank line: the pieces before the last are \<open>n\<close> texts that are not empty and neither
  begin nor end with a newline, and nothing follows the last blank line.
\<close>

fun has_blank_run :: "pystr \<Rightarrow> bool" where
  "has_blank_run (c # d # cs) = ((c = 10 \<and> d = 10) \<or> has_blank_run (d # cs))"
| "has_blank_run cs = False"

fun split_blank :: "pystr \<Rightarrow> pystr \<Rightarrow> pystr list" where
  "split_blank cur (c # d # cs) =
     (if c = 10 \<and> d = 10 then rev cur # split_blank [] cs
      else split_blank (c # cur) (d # cs))"
| "split_blank cur [c] = [rev (c # cur)]"
| "split_blank cur [] = [rev cur]"

definition is_block :: "pystr \<Rightarrow> bool" where
  "is_block b \<longleftrightarrow> b \<noteq> [] \<and> hd b \<noteq> 10 \<and> last b \<noteq> 10"

definition splits_into_blocks :: "nat \<Rightarrow> pystr \<Rightarrow> bool" where
  "splits_into_blocks n out \<longleftrightarrow>
     (let ps = split_blank [] out
      in last ps = [] \<and> length (butlast ps) = n \<and> list_all is_block (butlast ps))"

text \<open>
  A float that denotes a real number: a finite double.  The times of a segment are such
  floats.
\<close>

fun is_finite :: "pyfloat \<Rightarrow> bool" where
  "is_finite (Fin x) = is_double x"
| "is_finite v = False"

text \<open>
  The timestamp the specification describes for \<open>x\<close> seconds, in exact arithmetic:
  \<open>h = floor(x / 3600)\<close>, \<open>m = floor((x mod 3600) / 60)\<close>, \<open>s = floor(x mod 60)\<close> and
  \<open>ms = floor((x - floor(x)) * 1000)\<close>.
\<close>

definition spec_srt_time :: "rat \<Rightarrow> pystr" where
  "spec_srt_time x =
     py_format_0 2 \<lfloor>x / 3600\<rfloor> @ py_str '':'' @
     py_format_0 2 \<lfloor>(x - 3600 * of_int \<lfloor>x / 3600\<rfloor>) / 60\<rfloor> @ py_str '':'' @
     py_format_0 2 \<lfloor>x - 60 * of_int \<lfloor>x / 60\<rfloor>\<rfloor> @ py_str '','' @
     py_format_0 3 \<lfloor>(x - of_int \<lfloor>x\<rfloor>) * 1000\<rfloor>"

section \<open>Rounding to a double\<close>

lemma pow2_less_iff: "(2::rat) powi a < 2 powi b \<longleftrightarrow> a < b"
proof
  assume l: "(2::rat) powi a < 2 powi b"
  show "a < b"
  proof (rule ccontr)
    assume "\<not> a < b"
    then have "(2::rat) powi b \<le> 2 powi a" by (intro power_int_increasing) auto
    then show False using l by simp
  qed
next
  assume "a < b"
  then show "(2::rat) powi a < 2 powi b" by (intro power_int_strict_increasing) auto
qed

lemma pow2_le_iff: "(2::rat) powi a \<le> 2 powi b \<longleftrightarrow> a \<le> b"
  using pow2_less_iff [of b a] by (simp add: not_less [symmetric])

lemma pow2_pos: "(0::rat) < 2 powi a"
  by simp

lemma bitlen_rat_bounds:
  fixes p :: int
  assumes "0 < p"
  shows "(2::rat) powi (bitlen p - 1) \<le> of_int p" and "of_int p < (2::rat) powi bitlen p"
proof -
  have b: "1 \<le> bitlen p" using assms by (simp add: bitlen_alt_def)
  have "(2::int) ^ nat (bitlen p - 1) \<le> p" and lt: "p < 2 ^ nat (bitlen p)"
    using bitlen_bounds [OF assms] by auto
  then have "(of_int ((2::int) ^ nat (bitlen p - 1)) :: rat) \<le> of_int p"
    by (simp only: of_int_le_iff)
  then show "(2::rat) powi (bitlen p - 1) \<le> of_int p"
    using b by (simp add: power_int_def)
  have "(of_int p :: rat) < of_int ((2::int) ^ nat (bitlen p))"
    using lt by (simp only: of_int_less_iff)
  then show "of_int p < (2::rat) powi bitlen p"
    using b by (simp add: power_int_def)
qed

lemma flog2_bounds:
  assumes "r \<noteq> 0"
  shows "2 powi flog2 r \<le> \<bar>r\<bar>" and "\<bar>r\<bar> < 2 powi (flog2 r + 1)"
proof -
  obtain p q where pq: "quotient_of \<bar>r\<bar> = (p, q)" by (cases "quotient_of \<bar>r\<bar>")
  have q: "0 < q" using pq quotient_of_denom_pos by blast
  have r: "\<bar>r\<bar> = of_int p / of_int q" using pq by (rule quotient_of_div)
  have "0 < \<bar>r\<bar>" using assms by simp
  then have p: "0 < p" using q r by (simp add: zero_less_divide_iff)
  define k where "k = bitlen p - bitlen q"
  have fl: "flog2 r = (if 2 powi k \<le> \<bar>r\<bar> then k else k - 1)"
    by (simp add: flog2_def pq k_def Let_def)
  have q': "(0::rat) < of_int q" using q by simp
  have "\<bar>r\<bar> * of_int q = of_int p" using r q' by simp
  have lo: "2 powi (k - 1) \<le> \<bar>r\<bar>"
  proof -
    have "2 powi (k - 1) * (of_int q :: rat) \<le> 2 powi (k - 1) * 2 powi bitlen q"
      using bitlen_rat_bounds(2) [OF q] by (simp add: less_imp_le)
    also have "\<dots> = 2 powi (bitlen p - 1)"
      by (simp add: k_def power_int_add [symmetric])
    also have "\<dots> \<le> of_int p" using bitlen_rat_bounds(1) [OF p] .
    finally show ?thesis using q' r by (simp add: pos_le_divide_eq)
  qed
  have hi: "\<bar>r\<bar> < 2 powi (k + 1)"
  proof -
    have "(of_int p :: rat) < 2 powi bitlen p" using bitlen_rat_bounds(2) [OF p] .
    also have "\<dots> = 2 powi (k + 1) * 2 powi (bitlen q - 1)"
      by (simp add: k_def power_int_add [symmetric])
    also have "\<dots> \<le> 2 powi (k + 1) * of_int q"
      using bitlen_rat_bounds(1) [OF q] by simp
    finally show ?thesis using q' r by (simp add: pos_divide_less_eq)
  qed
  show "2 powi flog2 r \<le> \<bar>r\<bar>" using fl lo by simp
  show "\<bar>r\<bar> < 2 powi (flog2 r + 1)" using fl hi by (simp split: if_splits)
qed

lemma flog2_unique:
  assumes "2 powi e \<le> \<bar>r\<bar>" and "\<bar>r\<bar> < 2 powi (e + 1)"
  shows "flog2 r = e"
proof -
  have "(0::rat) < \<bar>r\<bar>" using pow2_pos [of e] assms(1) by linarith
  then have r: "r \<noteq> 0" by simp
  have "(2::rat) powi flog2 r < 2 powi (e + 1)"
    using flog2_bounds(1) [OF r] assms(2) by simp
  then have a: "flog2 r < e + 1" by (simp only: pow2_less_iff)
  have "(2::rat) powi e < 2 powi (flog2 r + 1)"
    using flog2_bounds(2) [OF r] assms(1) by simp
  then have "e < flog2 r + 1" by (simp only: pow2_less_iff)
  then show ?thesis using a by simp
qed

lemma flog2_minus: "flog2 (- r) = flog2 r"
  by (simp add: flog2_def)

lemma flog2_abs: "flog2 \<bar>r\<bar> = flog2 r"
  by (simp add: flog2_def)

lemma flog2_mono:
  assumes "r \<noteq> 0" and "\<bar>r\<bar> \<le> \<bar>s\<bar>"
  shows "flog2 r \<le> flog2 s"
proof -
  have s: "s \<noteq> 0" using assms by auto
  have "(2::rat) powi flog2 r \<le> \<bar>r\<bar>" using flog2_bounds(1) [OF assms(1)] .
  also have "\<dots> \<le> \<bar>s\<bar>" by fact
  also have "\<dots> < 2 powi (flog2 s + 1)" using flog2_bounds(2) [OF s] .
  finally have "flog2 r < flog2 s + 1" by (simp only: pow2_less_iff)
  then show ?thesis by simp
qed

lemma round_half_even_of_int: "round_half_even (of_int n) = n"
  by (simp add: round_half_even_def)

lemma round_half_even_mono: "x \<le> y \<Longrightarrow> round_half_even x \<le> round_half_even y"
proof -
  assume xy: "x \<le> y"
  then have fg: "\<lfloor>x\<rfloor> \<le> \<lfloor>y\<rfloor>" by (rule floor_mono)
  show ?thesis
  proof (cases "\<lfloor>x\<rfloor> = \<lfloor>y\<rfloor>")
    case True
    then show ?thesis using xy by (auto simp: round_half_even_def Let_def)
  next
    case False
    then have "\<lfloor>x\<rfloor> + 1 \<le> \<lfloor>y\<rfloor>" using fg by simp
    moreover have "round_half_even x \<le> \<lfloor>x\<rfloor> + 1" by (simp add: round_half_even_def Let_def)
    moreover have "\<lfloor>y\<rfloor> \<le> round_half_even y" by (simp add: round_half_even_def Let_def)
    ultimately show ?thesis by linarith
  qed
qed

lemma round_half_even_minus: "round_half_even (- x) = - round_half_even x"
proof (cases "x \<in> \<int>")
  case True
  then obtain n where "x = of_int n" by (auto elim: Ints_cases)
  then show ?thesis
    using round_half_even_of_int [of "- n"] round_half_even_of_int [of n] by simp
next
  case False
  then have ne: "x \<noteq> of_int \<lfloor>x\<rfloor>" by (metis Ints_of_int)
  then have c: "\<lceil>x\<rceil> = \<lfloor>x\<rfloor> + 1" by (simp add: ceiling_altdef)
  have f: "\<lfloor>- x\<rfloor> = - \<lfloor>x\<rfloor> - 1" using c by (simp add: floor_minus)
  have lt: "of_int \<lfloor>x\<rfloor> < x" using ne of_int_floor_le [of x] by linarith
  show ?thesis
    unfolding round_half_even_def Let_def f using lt
    by (auto simp: field_simps)
qed

lemma quantum_exp_minus: "quantum_exp (- r) = quantum_exp r"
  by (simp add: quantum_exp_def flog2_minus)

lemma rnd_minus: "rnd (- r) = - rnd r"
  by (simp add: rnd_def quantum_exp_minus round_half_even_minus)

lemma rnd_0: "rnd 0 = 0"
  by (simp add: rnd_def)

lemma quantum_exp_ge: "- 1074 \<le> quantum_exp r"
  by (simp add: quantum_exp_def)

lemma scaled_less: 
  assumes "r \<noteq> 0"
  shows "\<bar>r\<bar> / 2 powi quantum_exp r < 2 ^ 53"
proof -
  have "\<bar>r\<bar> < 2 powi (flog2 r + 1)" using flog2_bounds(2) [OF assms] .
  also have "\<dots> \<le> 2 powi (quantum_exp r + 53)"
    by (simp only: pow2_le_iff) (simp add: quantum_exp_def)
  also have "\<dots> = 2 powi quantum_exp r * 2 ^ 53"
    by (simp add: power_int_add)
  finally show ?thesis by (simp add: pos_divide_less_eq mult.commute)
qed

lemma rnd_nonneg: "0 \<le> r \<Longrightarrow> 0 \<le> rnd r"
proof -
  assume "0 \<le> r"
  then have "0 \<le> r / 2 powi quantum_exp r" by simp
  then have "round_half_even 0 \<le> round_half_even (r / 2 powi quantum_exp r)"
    by (rule round_half_even_mono)
  then have "0 \<le> round_half_even (r / 2 powi quantum_exp r)"
    using round_half_even_of_int [of 0] by simp
  then show ?thesis by (simp add: rnd_def)
qed

text \<open>A multiple of a power of two with at most 53 bits is its own rounding.\<close>

lemma rnd_repr_lt:
  assumes j: "\<bar>j\<bar> < 2 ^ 53" and e: "- 1074 \<le> e"
  shows "rnd (of_int j * 2 powi e) = of_int j * 2 powi e"
proof (cases "j = 0")
  case True
  then show ?thesis by (simp add: rnd_def)
next
  case False
  define r :: rat where "r = of_int j * 2 powi e"
  have r0: "r \<noteq> 0" using False by (simp add: r_def)
  have "\<bar>r\<bar> = of_int \<bar>j\<bar> * 2 powi e" by (simp add: r_def abs_mult)
  also have "\<dots> < 2 ^ 53 * 2 powi e"
  proof -
    have "(of_int \<bar>j\<bar> :: rat) < of_int (2 ^ 53)" using j by (simp only: of_int_less_iff)
    then show ?thesis by simp
  qed
  also have "\<dots> = 2 powi (e + 53)" by (simp add: power_int_add)
  finally have "2 powi flog2 r < (2::rat) powi (e + 53)"
    using flog2_bounds(1) [OF r0] by linarith
  then have "flog2 r < e + 53" by (simp only: pow2_less_iff)
  then have qe': "quantum_exp r \<le> e" using e by (simp add: quantum_exp_def)
  define q where "q = quantum_exp r"
  define d where "d = nat (e - q)"
  have qe: "q \<le> e" using qe' by (simp add: q_def)
  have "(2::rat) powi e = 2 powi q * 2 powi (e - q)"
    by (simp add: power_int_add [symmetric])
  also have "(2::rat) powi (e - q) = 2 ^ d"
    using qe by (simp add: d_def power_int_def)
  finally have pe: "(2::rat) powi e = 2 powi q * 2 ^ d" .
  have rq: "r = of_int (j * 2 ^ d) * 2 powi q"
    by (simp add: r_def pe)
  then have "r / 2 powi q = of_int (j * 2 ^ d)"
    by simp
  then have "round_half_even (r / 2 powi q) = j * 2 ^ d"
    by (simp only: round_half_even_of_int)
  then have "rnd r = of_int (j * 2 ^ d) * 2 powi q"
    using r0 by (simp add: rnd_def q_def)
  then have "rnd r = r" using rq by simp
  then show ?thesis by (simp add: r_def)
qed

lemma rnd_repr:
  assumes j: "\<bar>j\<bar> \<le> 2 ^ 53" and e: "- 1074 \<le> e"
  shows "rnd (of_int j * 2 powi e) = of_int j * 2 powi e"
proof (cases "\<bar>j\<bar> < 2 ^ 53")
  case True
  then show ?thesis using e by (rule rnd_repr_lt)
next
  case False
  then have jj: "j = 2 ^ 53 \<or> j = - (2 ^ 53)" using j by linarith
  then have "of_int j * (2::rat) powi e = of_int (j div 2) * 2 powi (e + 1)"
    by (auto simp: power_int_add)
  moreover have "\<bar>j div 2\<bar> < 2 ^ 53" using jj by auto
  ultimately show ?thesis using rnd_repr_lt [of "j div 2" "e + 1"] e by simp
qed

lemma rnd_of_int: "\<bar>n\<bar> \<le> 2 ^ 53 \<Longrightarrow> rnd (of_int n) = of_int n"
  using rnd_repr [of n 0] by simp

lemma rnd_upper:
  assumes "0 < r"
  shows "rnd r \<le> 2 powi (quantum_exp r + 53)"
proof -
  have r0: "r \<noteq> 0" using assms by simp
  have "r / 2 powi quantum_exp r \<le> of_int (2 ^ 53)"
    using scaled_less [OF r0] assms by simp
  then have "round_half_even (r / 2 powi quantum_exp r) \<le> round_half_even (of_int (2 ^ 53))"
    by (rule round_half_even_mono)
  then have "round_half_even (r / 2 powi quantum_exp r) \<le> 2 ^ 53"
    by (simp only: round_half_even_of_int)
  then have "(of_int (round_half_even (r / 2 powi quantum_exp r)) :: rat) \<le> of_int (2 ^ 53)"
    by (simp only: of_int_le_iff)
  then have "rnd r \<le> of_int (2 ^ 53) * 2 powi quantum_exp r"
    using r0 by (simp add: rnd_def)
  also have "\<dots> = 2 powi (quantum_exp r + 53)" by (simp add: power_int_add)
  finally show ?thesis .
qed

lemma rnd_lower:
  assumes "0 < r" and "- 1022 \<le> flog2 r"
  shows "2 powi flog2 r \<le> rnd r"
proof -
  have r0: "r \<noteq> 0" using assms by simp
  define q where "q = quantum_exp r"
  have q: "flog2 r = q + 52" using assms(2) by (simp add: q_def quantum_exp_def)
  have "(2::rat) powi (q + 52) \<le> r" using flog2_bounds(1) [OF r0] assms(1) q by simp
  then have "of_int (2 ^ 52) * 2 powi q \<le> r" by (simp add: power_int_add mult.commute)
  then have "of_int (2 ^ 52) \<le> r / 2 powi q" by (simp add: pos_le_divide_eq)
  then have "round_half_even (of_int (2 ^ 52)) \<le> round_half_even (r / 2 powi q)"
    by (rule round_half_even_mono)
  then have "2 ^ 52 \<le> round_half_even (r / 2 powi q)"
    by (simp only: round_half_even_of_int)
  then have "(of_int (2 ^ 52) :: rat) \<le> of_int (round_half_even (r / 2 powi q))"
    by (simp only: of_int_le_iff)
  then have "of_int (2 ^ 52) * 2 powi q \<le> rnd r"
    using r0 by (simp add: rnd_def q_def)
  then show ?thesis by (simp add: q power_int_add mult.commute)
qed

lemma rnd_mono_pos:
  assumes "0 < r" and "r \<le> s"
  shows "rnd r \<le> rnd s"
proof -
  have r0: "r \<noteq> 0" and s0: "s \<noteq> 0" and sp: "0 < s" using assms by auto
  have "flog2 r \<le> flog2 s" using flog2_mono [OF r0, of s] assms by simp
  then have ab: "quantum_exp r \<le> quantum_exp s" by (simp add: quantum_exp_def)
  show ?thesis
  proof (cases "quantum_exp r = quantum_exp s")
    case True
    have "r / 2 powi quantum_exp s \<le> s / 2 powi quantum_exp s"
      using assms(2) by (simp add: divide_right_mono)
    then have "round_half_even (r / 2 powi quantum_exp s) \<le> round_half_even (s / 2 powi quantum_exp s)"
      by (rule round_half_even_mono)
    then have "(of_int (round_half_even (r / 2 powi quantum_exp s)) :: rat)
        \<le> of_int (round_half_even (s / 2 powi quantum_exp s))"
      by (simp only: of_int_le_iff)
    then show ?thesis using r0 s0 True by (simp add: rnd_def)
  next
    case False
    then have lt: "quantum_exp r < quantum_exp s" using ab by simp
    have "- 1074 \<le> quantum_exp r" by (rule quantum_exp_ge)
    then have fs: "- 1022 \<le> flog2 s" and qs: "flog2 s = quantum_exp s + 52"
      using lt by (auto simp: quantum_exp_def [of s])
    have "rnd r \<le> 2 powi (quantum_exp r + 53)" using assms(1) by (rule rnd_upper)
    also have "\<dots> \<le> 2 powi flog2 s"
    proof -
      have "quantum_exp r + 53 \<le> flog2 s" using lt qs by simp
      then show ?thesis by (simp only: pow2_le_iff)
    qed
    also have "\<dots> \<le> rnd s" using sp fs by (rule rnd_lower)
    finally show ?thesis .
  qed
qed

lemma rnd_mono:
  assumes "r \<le> s"
  shows "rnd r \<le> rnd s"
proof -
  consider "0 < r" | "r = 0" | "r < 0" "0 \<le> s" | "r < 0" "s < 0" by linarith
  then show ?thesis
  proof cases
    case 1
    then show ?thesis using assms by (rule rnd_mono_pos)
  next
    case 2
    then show ?thesis using assms rnd_nonneg [of s] by (simp add: rnd_0)
  next
    case 3
    have "0 \<le> rnd (- r)" using 3 by (intro rnd_nonneg) simp
    then have "rnd r \<le> 0" by (simp add: rnd_minus)
    then show ?thesis using rnd_nonneg [OF 3(2)] by simp
  next
    case 4
    have "rnd (- s) \<le> rnd (- r)" using 4 assms by (intro rnd_mono_pos) auto
    then show ?thesis by (simp add: rnd_minus)
  qed
qed

lemma rnd_bound:
  assumes "rnd b = b" and "\<bar>r\<bar> \<le> b"
  shows "\<bar>rnd r\<bar> \<le> b"
proof -
  have "rnd r \<le> rnd b" using assms(2) by (intro rnd_mono) simp
  moreover have "rnd (- b) \<le> rnd r" using assms(2) by (intro rnd_mono) simp
  ultimately show ?thesis using assms(1) by (simp add: rnd_minus abs_le_iff)
qed

lemma max_double_repr: "max_double = of_int (2 ^ 53 - 1) * 2 powi 971"
  by (simp add: max_double_def)

lemma rnd_max_double: "rnd max_double = max_double"
  unfolding max_double_repr by (rule rnd_repr_lt) simp_all

lemma rnd_pow2: "- 1074 \<le> k \<Longrightarrow> rnd (2 powi k) = 2 powi k"
  using rnd_repr_lt [of 1 k] by simp

lemma pow2_le_max_double: "k \<le> 1023 \<Longrightarrow> 2 powi k \<le> max_double"
proof -
  assume "k \<le> 1023"
  then have "(2::rat) powi k \<le> 2 powi 1023" by (simp only: pow2_le_iff)
  also have "\<dots> \<le> max_double" by (simp add: max_double_def)
  finally show ?thesis .
qed

lemma fl_Fin: "\<bar>rnd r\<bar> \<le> max_double \<Longrightarrow> fl r = Fin (rnd r)"
  by (auto simp: fl_def Let_def)

lemma fl_max:
  assumes "\<bar>r\<bar> \<le> max_double"
  shows "fl r = Fin (rnd r)" and "\<bar>rnd r\<bar> \<le> max_double"
proof -
  show "\<bar>rnd r\<bar> \<le> max_double" using rnd_max_double assms by (rule rnd_bound)
  then show "fl r = Fin (rnd r)" by (rule fl_Fin)
qed

lemma fl_pow2:
  assumes "\<bar>r\<bar> \<le> 2 powi k" and "- 1074 \<le> k" and "k \<le> 1023"
  shows "fl r = Fin (rnd r)" and "\<bar>rnd r\<bar> \<le> 2 powi k"
proof -
  show b: "\<bar>rnd r\<bar> \<le> 2 powi k" using rnd_pow2 [OF assms(2)] assms(1) by (rule rnd_bound)
  then have "\<bar>rnd r\<bar> \<le> max_double" using pow2_le_max_double [OF assms(3)] by linarith
  then show "fl r = Fin (rnd r)" by (rule fl_Fin)
qed

lemma fl_of_int: "\<bar>n\<bar> \<le> 2 ^ 53 \<Longrightarrow> fl (of_int n) = Fin (of_int n)"
proof -
  assume n: "\<bar>n\<bar> \<le> 2 ^ 53"
  then have "(of_int \<bar>n\<bar> :: rat) \<le> of_int (2 ^ 53)" by (simp only: of_int_le_iff)
  then have "\<bar>of_int n :: rat\<bar> \<le> 2 ^ 53" by simp
  also have "\<dots> \<le> max_double" by (simp add: max_double_def)
  finally show ?thesis using rnd_of_int [OF n] by (simp add: fl_Fin)
qed

text \<open>The shape of a double.\<close>

lemma is_double_repr:
  assumes "is_double x"
  obtains j e where "x = of_int j * 2 powi e" and "\<bar>j\<bar> \<le> 2 ^ 53" and "- 1074 \<le> e"
proof (cases "x = 0")
  case True
  then have "x = of_int 0 * 2 powi 0" by simp
  then show ?thesis using that [of 0 0] by simp
next
  case False
  define q where "q = quantum_exp x"
  define j where "j = round_half_even (x / 2 powi q)"
  have x: "x = of_int j * 2 powi q"
    using assms False by (simp add: is_double_def rnd_def j_def q_def)
  have lt: "\<bar>x\<bar> / 2 powi q < 2 ^ 53" using scaled_less [OF False] by (simp add: q_def)
  have "\<bar>x\<bar> = \<bar>of_int j\<bar> * 2 powi q" by (subst x) (simp add: abs_mult)
  then have "\<bar>x\<bar> / 2 powi q = \<bar>of_int j\<bar>" by simp
  then have "\<bar>of_int j :: rat\<bar> < of_int (2 ^ 53)"
    using lt by simp
  then have "(of_int \<bar>j\<bar> :: rat) < of_int (2 ^ 53)" by simp
  then have j: "\<bar>j\<bar> \<le> 2 ^ 53" by (simp only: of_int_less_iff)
  have q: "- 1074 \<le> q" unfolding q_def by (rule quantum_exp_ge)
  show ?thesis using x j q by (rule that)
qed

lemma trunc_of_int: "trunc (of_int n) = n"
  by (simp add: trunc_def)

lemma trunc_bounds:
  "\<bar>x - of_int (trunc x)\<bar> \<le> \<bar>x\<bar>" "\<bar>x - of_int (trunc x)\<bar> < 1"
  "\<bar>of_int (trunc x) :: rat\<bar> \<le> \<bar>x\<bar>"
proof -
  have a: "of_int \<lfloor>x\<rfloor> \<le> x" "x < of_int \<lfloor>x\<rfloor> + 1" "x \<le> of_int \<lceil>x\<rceil>" "of_int \<lceil>x\<rceil> < x + 1"
    by linarith+
  have b: "0 \<le> x \<Longrightarrow> (0::rat) \<le> of_int \<lfloor>x\<rfloor>" by simp
  have c: "x < 0 \<Longrightarrow> of_int \<lceil>x\<rceil> \<le> (0::rat)" by (simp add: ceiling_le_iff)
  show "\<bar>x - of_int (trunc x)\<bar> \<le> \<bar>x\<bar>" "\<bar>x - of_int (trunc x)\<bar> < 1"
    "\<bar>of_int (trunc x) :: rat\<bar> \<le> \<bar>x\<bar>"
    using a b c unfolding trunc_def by (cases "0 \<le> x"; simp; linarith)+
qed

lemma trunc_nonneg: "0 \<le> x \<Longrightarrow> trunc x = \<lfloor>x\<rfloor>"
  by (simp add: trunc_def)

lemma is_double_frac:
  assumes "is_double x"
  shows "rnd (x - of_int (trunc x)) = x - of_int (trunc x)"
proof -
  obtain j e where x: "x = of_int j * 2 powi e" and j: "\<bar>j\<bar> \<le> 2 ^ 53" and e: "- 1074 \<le> e"
    using assms by (rule is_double_repr)
  show ?thesis
  proof (cases "0 \<le> e")
    case True
    then have "x = of_int (j * 2 ^ nat e)" by (simp add: x power_int_def)
    then obtain n where n: "x = of_int n" by blast
    show ?thesis unfolding n trunc_of_int by (simp add: rnd_0)
  next
    case False
    define d where "d = nat (- e)"
    have "(2::rat) powi (- e) = 2 ^ d" using False by (simp add: d_def power_int_def)
    moreover have "(2::rat) powi e * 2 powi (- e) = 1" by (simp add: power_int_add [symmetric])
    ultimately have p: "(2::rat) powi e * 2 ^ d = 1" by simp
    define j' where "j' = j - trunc x * 2 ^ d"
    have "of_int j' * (2::rat) powi e = of_int j * 2 powi e - of_int (trunc x) * (2 powi e * 2 ^ d)"
      by (simp add: j'_def algebra_simps)
    then have f: "x - of_int (trunc x) = of_int j' * 2 powi e" using x p by simp
    have "\<bar>of_int j' * (2::rat) powi e\<bar> \<le> \<bar>of_int j * 2 powi e\<bar>"
      using trunc_bounds(1) [of x] f x by simp
    then have "\<bar>of_int j' :: rat\<bar> \<le> \<bar>of_int j\<bar>" by (simp add: abs_mult)
    then have "(of_int \<bar>j'\<bar> :: rat) \<le> of_int \<bar>j\<bar>" by simp
    then have "\<bar>j'\<bar> \<le> \<bar>j\<bar>" by (simp only: of_int_le_iff)
    then have "\<bar>j'\<bar> \<le> 2 ^ 53" using j by simp
    then show ?thesis unfolding f using e by (rule rnd_repr)
  qed
qed

lemma is_double_trunc:
  assumes "is_double x"
  shows "rnd (of_int (trunc x)) = of_int (trunc x)"
proof -
  obtain j e where x: "x = of_int j * 2 powi e" and j: "\<bar>j\<bar> \<le> 2 ^ 53" and e: "- 1074 \<le> e"
    using assms by (rule is_double_repr)
  show ?thesis
  proof (cases "0 \<le> e")
    case True
    then have "x = of_int (j * 2 ^ nat e)" by (simp add: x power_int_def)
    then obtain n where n: "x = of_int n" by blast
    have "of_int (trunc x) = x" unfolding n trunc_of_int by simp
    then show ?thesis using assms by (simp add: is_double_def)
  next
    case False
    have "e \<le> 0" using False by simp
    then have "(2::rat) powi e \<le> 2 powi 0" by (simp only: pow2_le_iff)
    then have "\<bar>x\<bar> \<le> \<bar>of_int j\<bar>" 
      unfolding x abs_mult by (simp add: mult_left_le)
    then have "\<bar>of_int (trunc x) :: rat\<bar> \<le> \<bar>of_int j\<bar>" using trunc_bounds(3) [of x] by linarith
    then have "(of_int \<bar>trunc x\<bar> :: rat) \<le> of_int \<bar>j\<bar>" by simp
    then have "\<bar>trunc x\<bar> \<le> \<bar>j\<bar>" by (simp only: of_int_le_iff)
    then have "\<bar>trunc x\<bar> \<le> 2 ^ 53" using j by simp
    then show ?thesis by (rule rnd_of_int)
  qed
qed

lemma fmod_bounds:
  assumes "0 < w"
  shows "\<bar>x - w * of_int (trunc (x / w))\<bar> < w" and "\<bar>w * of_int (trunc (x / w))\<bar> \<le> \<bar>x\<bar>"
proof -
  have "\<bar>x / w - of_int (trunc (x / w))\<bar> < 1" by (rule trunc_bounds(2))
  then have "\<bar>x / w - of_int (trunc (x / w))\<bar> * w < 1 * w"
    using assms by (simp only: mult_less_cancel_right_pos)
  moreover have "\<bar>x / w - of_int (trunc (x / w))\<bar> * w = \<bar>(x / w - of_int (trunc (x / w))) * w\<bar>"
    using assms by (simp add: abs_mult)
  moreover have "(x / w - of_int (trunc (x / w))) * w = x - w * of_int (trunc (x / w))"
    using assms by (simp add: algebra_simps)
  ultimately show "\<bar>x - w * of_int (trunc (x / w))\<bar> < w" by simp
  have "\<bar>of_int (trunc (x / w)) :: rat\<bar> \<le> \<bar>x / w\<bar>" by (rule trunc_bounds(3))
  then have "\<bar>of_int (trunc (x / w)) :: rat\<bar> * w \<le> \<bar>x / w\<bar> * w"
    using assms by (simp only: mult_le_cancel_right_pos)
  then show "\<bar>w * of_int (trunc (x / w))\<bar> \<le> \<bar>x\<bar>"
    using assms by (simp add: abs_mult mult.commute)
qed

lemma float_add_Fin:
  assumes "\<bar>a + b\<bar> \<le> 2 powi k" and "- 1074 \<le> k" and "k \<le> 1023"
  obtains v where "float_add (Fin a) (Fin b) = Fin v" and "\<bar>v\<bar> \<le> 2 powi k"
  using fl_pow2 [OF assms] by simp

lemma float_sub_Fin:
  assumes "\<bar>a - b\<bar> \<le> 2 powi k" and "- 1074 \<le> k" and "k \<le> 1023"
  obtains v where "float_sub (Fin a) (Fin b) = Fin v" and "\<bar>v\<bar> \<le> 2 powi k"
  using fl_pow2 [of "a + - b" k] assms by (simp add: float_sub_def)

text \<open>On a finite float the remainder and the floor quotient are finite.\<close>

lemma float_rem_Fin:
  assumes "0 < w" and "w \<le> 2 powi 12"
  obtains r where "float_rem (Fin x) w = Fin r" and "\<bar>r\<bar> \<le> 2 powi 12"
proof -
  define m where "m = x - w * of_int (trunc (x / w))"
  have m: "\<bar>m\<bar> < w" unfolding m_def using assms(1) by (rule fmod_bounds(1))
  show ?thesis
  proof (cases "m < 0")
    case True
    then have "\<bar>m + w\<bar> \<le> 2 powi 12" using m assms by (simp add: abs_if)
    then obtain v where v: "float_add (Fin m) (Fin w) = Fin v" "\<bar>v\<bar> \<le> 2 powi 12"
      by (rule float_add_Fin) simp_all
    then have "float_rem (Fin x) w = Fin v"
      using True assms(1) by (simp add: float_rem_def m_def [symmetric] Let_def)
    then show ?thesis using v(2) by (rule that)
  next
    case False
    then have "float_rem (Fin x) w = Fin m"
      using assms(1) by (simp add: float_rem_def m_def [symmetric] Let_def)
    moreover have "\<bar>m\<bar> \<le> 2 powi 12" using m assms(2) by linarith
    ultimately show ?thesis by (rule that)
  qed
qed

lemma snap_quotient_Fin:
  assumes db: "\<bar>d\<bar> \<le> 2 powi 1021"
  obtains q where "snap_quotient (Fin d) = Fin q"
proof -
  have "\<bar>d - of_int \<lfloor>d\<rfloor>\<bar> \<le> 2 powi 0"
    using of_int_floor_le [of d] floor_correct [of d] by (simp add: abs_if) linarith
  then obtain g where g: "float_sub (Fin d) (Fin (of_int \<lfloor>d\<rfloor>)) = Fin g"
    by (rule float_sub_Fin) simp_all
  have "\<bar>of_int \<lfloor>d\<rfloor> + (1::rat)\<bar> \<le> \<bar>d\<bar> + 2"
    using of_int_floor_le [of d] floor_correct [of d] by (simp add: abs_if) linarith
  also have "\<dots> \<le> 2 * 2 powi 1021" using db by simp
  also have "\<dots> = 2 powi 1022" by simp
  finally have "\<bar>of_int \<lfloor>d\<rfloor> + (1::rat)\<bar> \<le> 2 powi 1022" .
  then obtain u where u: "float_add (Fin (of_int \<lfloor>d\<rfloor>)) (Fin 1) = Fin u"
    by (rule float_add_Fin) simp_all
  have "snap_quotient (Fin d) =
      (if d \<noteq> 0 then (if 1 / 2 < g then Fin u else Fin (of_int \<lfloor>d\<rfloor>)) else Fin 0)"
    using g u by (simp add: snap_quotient_def Let_def)
  then show ?thesis using that by (simp split: if_splits)
qed

lemma snap_quotient_of_int: "snap_quotient (Fin (of_int q)) = Fin (of_int q)"
proof -
  have "float_sub (Fin (of_int q)) (Fin (of_int q)) = Fin 0"
    using fl_of_int [of 0] by (simp add: float_sub_def)
  then show ?thesis by (simp add: snap_quotient_def Let_def)
qed

lemma max_double_less: "max_double \<le> 2 powi 1024"
  by (simp add: max_double_def)

lemma float_floordiv_Fin:
  assumes x: "\<bar>x\<bar> \<le> max_double" and w: "16 \<le> w"
  obtains q where "float_floordiv (Fin x) w = Fin q"
proof -
  have w0: "0 < w" using w by simp
  define m where "m = x - w * of_int (trunc (x / w))"
  have "x - m = w * of_int (trunc (x / w))" by (simp add: m_def)
  then have "\<bar>x - m\<bar> \<le> \<bar>x\<bar>" using fmod_bounds(2) [OF w0, of x] by simp
  then have xm: "\<bar>x + - m\<bar> \<le> max_double" using x by simp
  define t where "t = rnd (x - m)"
  have t: "float_sub (Fin x) (Fin m) = Fin t" and tb: "\<bar>t\<bar> \<le> max_double"
    using fl_max [OF xm] by (simp_all add: float_sub_def t_def)
  have "\<bar>t / w\<bar> = \<bar>t\<bar> / w" using w0 by simp
  also have "\<dots> \<le> max_double / 16"
    using tb w by (intro frac_le) (simp_all add: max_double_def)
  also have "\<dots> \<le> 2 powi 1020" by (simp add: max_double_def)
  finally have tw: "\<bar>t / w\<bar> \<le> 2 powi 1020" .
  define d0 where "d0 = rnd (t / w)"
  have d0: "float_div (Fin t) w = Fin d0" and d0b: "\<bar>d0\<bar> \<le> 2 powi 1020"
    using fl_pow2 [OF tw] by (simp_all add: d0_def)
  have "(1::rat) \<le> 2 powi 1020" by simp
  then have "\<bar>d0 - 1\<bar> \<le> 2 * 2 powi 1020" using d0b by linarith
  also have "\<dots> = 2 powi 1021" by simp
  finally have "\<bar>d0 - 1\<bar> \<le> 2 powi 1021" .
  then obtain d1 where d1: "float_sub (Fin d0) (Fin 1) = Fin d1" and d1b: "\<bar>d1\<bar> \<le> 2 powi 1021"
    by (rule float_sub_Fin) simp_all
  define d where "d = (if m \<noteq> 0 \<and> m < 0 then d1 else d0)"
  have "(2::rat) powi 1020 \<le> 2 powi 1021" by simp
  then have db: "\<bar>d\<bar> \<le> 2 powi 1021" using d0b d1b by (simp add: d_def)
  obtain q where q: "snap_quotient (Fin d) = Fin q" using db by (rule snap_quotient_Fin)
  have "float_floordiv (Fin x) w = snap_quotient (Fin d)"
    using w0 t d0 d1 by (simp add: float_floordiv_def m_def [symmetric] d_def Let_def)
  then show ?thesis using q that by simp
qed

text \<open>Their values on a non-negative float below \<open>2^53\<close>.\<close>

lemma floor_div_mult_le: "0 < w \<Longrightarrow> of_int \<lfloor>x / w\<rfloor> * w \<le> (x::rat)"
proof -
  assume w: "0 < w"
  have "of_int \<lfloor>x / w\<rfloor> * w \<le> (x / w) * w" using w by (intro mult_right_mono) auto
  then show ?thesis using w by simp
qed

lemma float_rem_nonneg:
  assumes "0 \<le> x" and "0 < w"
  shows "float_rem (Fin x) w = Fin (x - w * of_int \<lfloor>x / w\<rfloor>)"
proof -
  have t: "trunc (x / w) = \<lfloor>x / w\<rfloor>" using assms by (simp add: trunc_nonneg)
  have "of_int \<lfloor>x / w\<rfloor> * w \<le> x" using assms(2) by (rule floor_div_mult_le)
  then have "\<not> x - w * of_int \<lfloor>x / w\<rfloor> < 0" by (simp add: mult.commute)
  then show ?thesis using assms(2) by (simp add: float_rem_def t Let_def)
qed

lemma float_floordiv_nonneg:
  assumes x0: "0 \<le> x" and x: "x \<le> 2 ^ 53" and k: "0 < k"
  shows "float_floordiv (Fin x) (of_int k) = Fin (of_int \<lfloor>x / of_int k\<rfloor>)"
proof -
  define w :: rat where "w = of_int k"
  define q where "q = \<lfloor>x / w\<rfloor>"
  have w0: "0 < w" using k by (simp add: w_def)
  have t: "trunc (x / w) = q" using x0 w0 by (simp add: trunc_nonneg q_def)
  have q0: "0 \<le> q" using x0 w0 by (simp add: q_def)
  have qx: "of_int q * w \<le> x" unfolding q_def using w0 by (rule floor_div_mult_le)
  define m where "m = x - w * of_int q"
  have m0: "\<not> m < 0" using qx by (simp add: m_def mult.commute)
  have "(of_int (k * q) :: rat) \<le> of_int (2 ^ 53)" using qx x by (simp add: w_def mult.commute)
  then have kq: "k * q \<le> 2 ^ 53" by (simp only: of_int_le_iff)
  have kq0: "0 \<le> k * q" using k q0 by simp
  have "1 * q \<le> k * q" using k q0 by (intro mult_right_mono) auto
  then have qb: "\<bar>q\<bar> \<le> 2 ^ 53" using kq q0 by simp
  have "x + - m = of_int (k * q)" by (simp add: m_def w_def)
  then have s: "float_sub (Fin x) (Fin m) = Fin (of_int (k * q))"
    using fl_of_int [of "k * q"] kq kq0 by (simp add: float_sub_def)
  have "(of_int (k * q) :: rat) / w = of_int q" using w0 by (simp add: w_def)
  then have d: "float_div (Fin (of_int (k * q))) w = Fin (of_int q)"
    using fl_of_int [OF qb] by simp
  have "float_floordiv (Fin x) w = Fin (of_int q)"
    using w0 m0 s d
    by (simp add: float_floordiv_def t m_def [symmetric] Let_def snap_quotient_of_int)
  then show ?thesis by (simp add: w_def q_def)
qed

lemma float_frac_ms:
  assumes "is_double x"
  shows "float_of_int (trunc x) = Inr (Fin (of_int (trunc x)))"
    and "float_mul (float_sub (Fin x) (Fin (of_int (trunc x)))) (Fin 1000) =
         Fin (rnd ((x - of_int (trunc x)) * 1000))"
proof -
  have xb: "\<bar>x\<bar> \<le> max_double" using assms by (simp add: is_double_def)
  have "\<bar>rnd (of_int (trunc x))\<bar> \<le> max_double"
    using trunc_bounds(3) [of x] xb by (simp add: is_double_trunc [OF assms])
  then have "fl (of_int (trunc x)) = Fin (of_int (trunc x))"
    using fl_Fin [of "of_int (trunc x)"] by (simp add: is_double_trunc [OF assms])
  then show "float_of_int (trunc x) = Inr (Fin (of_int (trunc x)))"
    by (simp add: float_of_int_def)
  define f where "f = x - of_int (trunc x)"
  have f1: "\<bar>f\<bar> < 1" unfolding f_def by (rule trunc_bounds(2))
  have rf: "rnd f = f" unfolding f_def using assms by (rule is_double_frac)
  have "(1::rat) \<le> max_double" by (simp add: max_double_def)
  then have "\<bar>rnd f\<bar> \<le> max_double" using f1 rf by simp
  then have "fl f = Fin f" using fl_Fin [of f] rf by simp
  then have s: "float_sub (Fin x) (Fin (of_int (trunc x))) = Fin f"
    by (simp add: float_sub_def f_def)
  have "\<bar>f * 1000\<bar> = \<bar>f\<bar> * 1000" by (simp add: abs_mult)
  also have "\<dots> \<le> 2 powi 10" using f1 by simp
  finally have "fl (f * 1000) = Fin (rnd (f * 1000))" by (rule fl_pow2) simp_all
  then show "float_mul (float_sub (Fin x) (Fin (of_int (trunc x)))) (Fin 1000) =
         Fin (rnd ((x - of_int (trunc x)) * 1000))"
    using s by (simp add: f_def)
qed

lemma format_srt_time_finite:
  assumes "is_double x"
  shows "\<exists>s. format_srt_time (Fin x) = Inr s"
proof -
  have xb: "\<bar>x\<bar> \<le> max_double" using assms by (simp add: is_double_def)
  have p12: "(2::rat) powi 12 \<le> max_double" by (simp add: max_double_def)
  obtain h where h: "float_floordiv (Fin x) 3600 = Fin h"
    using float_floordiv_Fin [OF xb, of 3600] by auto
  obtain r where r: "float_rem (Fin x) 3600 = Fin r" and rb: "\<bar>r\<bar> \<le> 2 powi 12"
    using float_rem_Fin [of 3600 x] by auto
  have "\<bar>r\<bar> \<le> max_double" using rb p12 by linarith
  then obtain m where m: "float_floordiv (Fin r) 60 = Fin m"
    using float_floordiv_Fin [of r 60] by auto
  obtain s where s: "float_rem (Fin x) 60 = Fin s"
    using float_rem_Fin [of 60 x] by auto
  show ?thesis
    by (simp add: format_srt_time_def h r m s float_frac_ms [OF assms])
qed

lemma format_srt_time_nonneg:
  assumes d: "is_double x" and x0: "0 \<le> x" and x: "x \<le> 2 ^ 53"
  shows "format_srt_time (Fin x) = Inr
     (py_format_0 2 \<lfloor>x / 3600\<rfloor> @ py_str '':'' @
      py_format_0 2 \<lfloor>(x - 3600 * of_int \<lfloor>x / 3600\<rfloor>) / 60\<rfloor> @ py_str '':'' @
      py_format_0 2 \<lfloor>x - 60 * of_int \<lfloor>x / 60\<rfloor>\<rfloor> @ py_str '','' @
      py_format_0 3 \<lfloor>rnd ((x - of_int \<lfloor>x\<rfloor>) * 1000)\<rfloor>)"
proof -
  define r where "r = x - 3600 * of_int \<lfloor>x / 3600\<rfloor>"
  have h: "float_floordiv (Fin x) 3600 = Fin (of_int \<lfloor>x / 3600\<rfloor>)"
    using float_floordiv_nonneg [OF x0 x, of 3600] by simp
  have rm: "float_rem (Fin x) 3600 = Fin r"
    using float_rem_nonneg [OF x0, of 3600] by (simp add: r_def)
  have "of_int \<lfloor>x / 3600\<rfloor> * 3600 \<le> x" by (rule floor_div_mult_le) simp
  then have r0: "0 \<le> r" by (simp add: r_def)
  have "0 \<le> of_int \<lfloor>x / 3600\<rfloor> * (3600::rat)" using x0 by simp
  then have "r \<le> x" by (simp add: r_def)
  then have rx: "r \<le> 2 ^ 53" using x by linarith
  have m: "float_floordiv (Fin r) 60 = Fin (of_int \<lfloor>r / 60\<rfloor>)"
    using float_floordiv_nonneg [OF r0 rx, of 60] by simp
  have s: "float_rem (Fin x) 60 = Fin (x - 60 * of_int \<lfloor>x / 60\<rfloor>)"
    using float_rem_nonneg [OF x0, of 60] by simp
  have "of_int \<lfloor>x / 60\<rfloor> * 60 \<le> x" by (rule floor_div_mult_le) simp
  then have s0: "0 \<le> x - 60 * of_int \<lfloor>x / 60\<rfloor>" by simp
  have t: "trunc x = \<lfloor>x\<rfloor>" using x0 by (rule trunc_nonneg)
  define f where "f = rnd ((x - of_int \<lfloor>x\<rfloor>) * 1000)"
  have "0 \<le> (x - of_int \<lfloor>x\<rfloor>) * 1000" by simp
  then have ms0: "0 \<le> f" unfolding f_def by (rule rnd_nonneg)
  have e1: "py_int (float_floordiv (Fin x) 3600) = Inr \<lfloor>x / 3600\<rfloor>"
    by (simp only: h py_int.simps trunc_of_int)
  have e2: "py_int (float_floordiv (float_rem (Fin x) 3600) 60) = Inr \<lfloor>r / 60\<rfloor>"
    by (simp only: rm m py_int.simps trunc_of_int)
  have e3: "py_int (float_rem (Fin x) 60) = Inr \<lfloor>x - 60 * of_int \<lfloor>x / 60\<rfloor>\<rfloor>"
    by (simp only: s py_int.simps trunc_nonneg [OF s0])
  have e4: "py_int (Fin x) = Inr \<lfloor>x\<rfloor>"
    by (simp only: py_int.simps t)
  have e5: "float_of_int \<lfloor>x\<rfloor> = Inr (Fin (of_int \<lfloor>x\<rfloor>))"
    using float_frac_ms(1) [OF d] by (simp only: t)
  have "float_mul (float_sub (Fin x) (Fin (of_int \<lfloor>x\<rfloor>))) (Fin 1000) = Fin f"
    using float_frac_ms(2) [OF d] by (simp only: t f_def)
  then have e6: "py_int (float_mul (float_sub (Fin x) (Fin (of_int \<lfloor>x\<rfloor>))) (Fin 1000)) = Inr \<lfloor>f\<rfloor>"
    by (simp only: py_int.simps trunc_nonneg [OF ms0])
  show ?thesis
    unfolding format_srt_time_def e1 e2 e3 e4 e5 e6 sum.case f_def r_def ..
qed

section \<open>Evaluating the model on numerals\<close>

lemma rnd_eval:
  assumes "2 powi e \<le> \<bar>r\<bar>" and "\<bar>r\<bar> < 2 powi (e + 1)"
  shows "rnd r = of_int (round_half_even (r / 2 powi (max e (- 1022) - 52))) * 2 powi (max e (- 1022) - 52)"
proof -
  have e: "flog2 r = e" using assms by (rule flog2_unique)
  have "(0::rat) < \<bar>r\<bar>" using pow2_pos [of e] assms(1) by linarith
  then show ?thesis by (simp add: rnd_def quantum_exp_def e)
qed

lemma floor_rat_numeral: "\<lfloor>numeral a / numeral b :: rat\<rfloor> = numeral a div numeral b"
  by (metis floor_divide_of_int_eq of_int_numeral)

lemma floor_rat_neg_numeral: "\<lfloor>- (numeral a / numeral b) :: rat\<rfloor> = - numeral a div numeral b"
  by (metis divide_minus_left floor_divide_of_int_eq of_int_neg_numeral of_int_numeral)

lemma floor_rat_one: "\<lfloor>1 / numeral b :: rat\<rfloor> = 1 div numeral b"
  using floor_divide_of_int_eq [of 1 "numeral b", where ?'a = rat] by simp

lemma replicate_small: "replicate 1 x = [x]" "replicate 2 x = [x, x]" "replicate 3 x = [x, x, x]"
  by (simp_all add: numeral_2_eq_2 numeral_3_eq_3)

lemmas eval_simps = floor_rat_numeral floor_rat_neg_numeral floor_rat_one replicate_small
  round_half_even_def Let_def

lemma dec_digits_small: "n < 10 \<Longrightarrow> dec_digits n = [48 + n]"
  by (simp add: dec_digits.simps)

lemma dec_digits_large: "\<not> n < 10 \<Longrightarrow> dec_digits n = dec_digits (n div 10) @ [48 + n mod 10]"
  by (subst dec_digits.simps) simp

lemma rnd_3661_999: "rnd (3661999 / 1000) = 1006602620351021 / 274877906944"
  by (subst rnd_eval [of 11]) (simp_all add: eval_simps)

lemma fl_3661_999: "fl (3661999 / 1000) = Fin (1006602620351021 / 274877906944)"
  by (simp add: fl_def rnd_3661_999 max_double_def)

lemma is_double_3661_999: "is_double (1006602620351021 / 274877906944)"
proof -
  have "rnd (of_int 1006602620351021 * 2 powi (- 38)) = of_int 1006602620351021 * 2 powi (- 38)"
    by (rule rnd_repr) simp_all
  then show ?thesis by (simp add: is_double_def max_double_def)
qed

lemma rnd_998_ms: "rnd (34325378629625 / 34359738368) = 34325378629625 / 34359738368"
  using rnd_repr [of 34325378629625 "- 35"] by simp

lemma format_3661_999: "format_srt_time (fl (3661999/1000)) = Inr (py_str ''01:01:01,998'')"
  unfolding fl_3661_999
  by (subst format_srt_time_nonneg [OF is_double_3661_999]) (simp_all add: rnd_998_ms eval_simps py_format_0_def py_str_def dec_digits_small dec_digits_large)

lemma rnd_numeral: "numeral n \<le> (2 ^ 53 :: int) \<Longrightarrow> rnd (numeral n) = numeral n"
  using rnd_of_int [of "numeral n"] by simp

lemma fl_double: "is_double x \<Longrightarrow> fl x = Fin x"
  by (simp add: is_double_def fl_Fin)

lemma is_double_of_int: "\<bar>n\<bar> \<le> 2 ^ 53 \<Longrightarrow> is_double (of_int n)"
proof -
  assume n: "\<bar>n\<bar> \<le> 2 ^ 53"
  then have "(of_int \<bar>n\<bar> :: rat) \<le> of_int (2 ^ 53)" by (simp only: of_int_le_iff)
  then have "\<bar>of_int n :: rat\<bar> \<le> 2 ^ 53" by simp
  also have "\<dots> \<le> max_double" by (simp add: max_double_def)
  finally show ?thesis using rnd_of_int [OF n] by (simp add: is_double_def)
qed

lemma is_double_0: "is_double 0"
  using is_double_of_int [of 0] by simp

lemma is_double_numeral: "numeral n \<le> (2 ^ 53 :: int) \<Longrightarrow> is_double (numeral n)"
  using is_double_of_int [of "numeral n"] by simp

lemma is_double_1: "is_double 1"
  using is_double_of_int [of 1] by simp

lemma is_double_three_halves: "is_double (3 / 2)"
proof -
  have "rnd (of_int 3 * 2 powi (- 1)) = of_int 3 * 2 powi (- 1)"
    by (rule rnd_repr) simp_all
  then show ?thesis by (simp add: is_double_def max_double_def)
qed

lemmas format_simps = eval_simps rnd_0 rnd_numeral py_format_0_def py_str_def
  dec_digits_small dec_digits_large

lemma format_srt_time_0: "format_srt_time (Fin 0) = Inr (py_str ''00:00:00,000'')"
  by (subst format_srt_time_nonneg [OF is_double_0]) (simp_all add: format_simps)

lemma format_srt_time_1: "format_srt_time (Fin 1) = Inr (py_str ''00:00:01,000'')"
  by (subst format_srt_time_nonneg [OF is_double_1]) (simp_all add: format_simps)

lemma format_srt_time_2: "format_srt_time (Fin 2) = Inr (py_str ''00:00:02,000'')"
  by (subst format_srt_time_nonneg [OF is_double_numeral]) (simp_all add: format_simps)

lemma format_srt_time_3: "format_srt_time (Fin 3) = Inr (py_str ''00:00:03,000'')"
  by (subst format_srt_time_nonneg [OF is_double_numeral]) (simp_all add: format_simps)

lemma format_srt_time_three_halves: "format_srt_time (Fin (3 / 2)) = Inr (py_str ''00:00:01,500'')"
  by (subst format_srt_time_nonneg [OF is_double_three_halves]) (simp_all add: format_simps)

lemmas fl_simps = fl_double [OF is_double_0] fl_double [OF is_double_1]
  fl_double [OF is_double_three_halves]

lemma fl_numeral: "numeral n \<le> (2 ^ 53 :: int) \<Longrightarrow> fl (numeral n) = Fin (numeral n)"
  by (rule fl_double) (rule is_double_numeral)

lemmas srt_simps = srt_to_text_def py_str_def match_markup_def re_digit_def markup_items_def
  timing_items_def py_strip_def py_isspace_def

lemmas encode_simps = encode_def write_segment_def Let_def py_str_int_def
  dec_digits_small dec_digits_large py_strip_def py_isspace_def

lemma encode_a_b:
  "encode [\<lparr>seg_id = 0, seg_start = fl 0, seg_end = fl 1, seg_text = py_str ''a''\<rparr>,
           \<lparr>seg_id = 1, seg_start = fl 2, seg_end = fl 3, seg_text = py_str ''b''\<rparr>] =
   Inr (py_str ''1\<newline>00:00:00,000 --> 00:00:01,000\<newline>a\<newline>\<newline>2\<newline>00:00:02,000 --> 00:00:03,000\<newline>b\<newline>\<newline>'')"
  by (simp add: encode_simps py_str_def fl_simps fl_numeral format_srt_time_0 format_srt_time_1
        format_srt_time_2 format_srt_time_3)

lemma hello_encoding: 
  "encode [\<lparr>seg_id = 0, seg_start = fl 0, seg_end = fl (3 / 2), seg_text = py_str ''hello''\<rparr>] =
   Inr (py_str ''1\<newline>00:00:00,000 --> 00:00:01,500\<newline>hello\<newline>\<newline>'')"
  by (simp add: encode_simps py_str_def fl_simps format_srt_time_0 format_srt_time_three_halves)

section \<open>Matching\<close>

lemma match_items_length: "match_items nd ps s = Some r \<Longrightarrow> length r \<le> length s"
  by (induction nd ps s rule: match_items.induct) (auto split: if_splits)

lemma match_items_append:
  "match_items nd ps s = Some r \<Longrightarrow> match_items nd ps (s @ t) = Some (r @ t)"
  by (induction nd ps s rule: match_items.induct) (auto split: if_splits)

lemma match_markup_tail:
  assumes "match_items nd markup_items s = Some r"
  shows "s \<noteq> [] \<and> hd s = 10"
  using assms by (cases s) (auto simp: markup_items_def split: if_splits)

lemma re_digit_newline: "\<not> re_digit nd 10"
  by (simp add: re_digit_def)

lemma match_markup_append:
  assumes "match_markup nd s = Some r"
  shows "match_markup nd (s @ t) = Some (r @ t)"
proof -
  let ?P = "re_digit nd"
  from assms have tw: "takeWhile ?P s \<noteq> []"
    and m: "match_items nd markup_items (dropWhile ?P s) = Some r"
    by (auto simp: match_markup_def split: if_splits)
  from match_markup_tail [OF m] have d: "dropWhile ?P s \<noteq> []" by simp
  then have np: "\<not> ?P (hd (dropWhile ?P s))" by (rule hd_dropWhile)
  have mem: "hd (dropWhile ?P s) \<in> set s" using d by (meson hd_in_set set_dropWhileD)
  have t1: "takeWhile ?P (s @ t) = takeWhile ?P s" using mem np by (rule takeWhile_append1)
  have t2: "dropWhile ?P (s @ t) = dropWhile ?P s @ t" using mem np by (rule dropWhile_append1)
  show ?thesis using tw match_items_append [OF m] by (simp add: match_markup_def t1 t2)
qed

lemma has_markup_append: "has_markup nd s \<Longrightarrow> has_markup nd (s @ t)"
proof (induction s)
  case Nil
  then show ?case by simp
next
  case (Cons c cs)
  show ?case
  proof (cases "match_markup nd (c # cs)")
    case None
    then show ?thesis using Cons by simp
  next
    case (Some r)
    then have "match_markup nd ((c # cs) @ t) = Some (r @ t)" by (rule match_markup_append)
    then show ?thesis by simp
  qed
qed

lemma has_markup_prepend: "has_markup nd s \<Longrightarrow> has_markup nd (a @ s)"
  by (induction a) auto

lemma sub_markup_id: "\<not> has_markup nd s \<Longrightarrow> sub_markup nd s = s"
  by (induction s) auto

lemma match_markup_length:
  assumes "match_markup nd s = Some r"
  shows "length r < length s"
proof -
  let ?P = "re_digit nd"
  from assms have tw: "takeWhile ?P s \<noteq> []"
    and m: "match_items nd markup_items (dropWhile ?P s) = Some r"
    by (auto simp: match_markup_def split: if_splits)
  have "length s = length (takeWhile ?P s) + length (dropWhile ?P s)"
    by (metis length_append takeWhile_dropWhile_id)
  then have "length (dropWhile ?P s) < length s" using tw by simp
  then show ?thesis using match_items_length [OF m] by simp
qed

lemma length_sub_markup: "length (sub_markup nd s) \<le> length s"
proof (induction nd s rule: sub_markup.induct)
  case (1 nd)
  then show ?case by simp
next
  case (2 nd c cs)
  show ?case
  proof (cases "match_markup nd (c # cs)")
    case None
    then show ?thesis using 2(1) [OF None] by simp
  next
    case (Some r)
    then show ?thesis using 2(2) [OF Some] match_markup_length [OF Some] by simp
  qed
qed

section \<open>Blank lines\<close>

lemma has_blank_run_Cons:
  "has_blank_run (c # s) \<longleftrightarrow> (c = 10 \<and> s \<noteq> [] \<and> hd s = 10) \<or> has_blank_run s"
  by (cases s) auto

lemma has_blank_run_no_newline: "10 \<notin> set x \<Longrightarrow> has_blank_run (x @ y) = has_blank_run y"
  by (induction x) (auto simp: has_blank_run_Cons hd_append)

lemma has_blank_run_append: "has_blank_run s \<Longrightarrow> has_blank_run (s @ t)"
  by (induction s rule: has_blank_run.induct) auto

lemma has_blank_run_prepend: "has_blank_run s \<Longrightarrow> has_blank_run (a @ s)"
  by (induction a) (auto simp: has_blank_run_Cons)

lemma newline_run: "2 \<le> length (takeWhile P (c # s)) \<longleftrightarrow> P c \<and> s \<noteq> [] \<and> P (hd s)"
  by (cases s) auto

lemma sub_newlines_id: "\<not> has_blank_run s \<Longrightarrow> sub_newlines s = s"
proof (induction s)
  case Nil
  then show ?case by simp
next
  case (Cons c cs)
  from Cons.prems have a: "\<not> (c = 10 \<and> cs \<noteq> [] \<and> hd cs = 10)" and b: "\<not> has_blank_run cs"
    by (simp_all only: has_blank_run_Cons) auto
  from a have "\<not> 2 \<le> length (takeWhile (\<lambda>x. x = 10) (c # cs))"
    by (simp only: newline_run) simp
  then have "sub_newlines (c # cs) = c # sub_newlines cs" by simp
  then show ?case using Cons.IH [OF b] by simp
qed

lemma sub_newlines_Nil_iff: "sub_newlines s = [] \<longleftrightarrow> s = []"
  by (cases s) auto

lemma hd_sub_newlines: "s \<noteq> [] \<Longrightarrow> hd (sub_newlines s) = hd s"
  by (cases s) (auto simp: newline_run)

lemma sub_newlines_no_run: "\<not> has_blank_run (sub_newlines s)"
proof (induction s rule: sub_newlines.induct)
  case 1
  then show ?case by simp
next
  case (2 c cs)
  let ?D = "dropWhile (\<lambda>x. x = 10) (c # cs)"
  show ?case
  proof (cases "2 \<le> length (takeWhile (\<lambda>x. x = 10) (c # cs))")
    case True
    have "\<not> (sub_newlines ?D \<noteq> [] \<and> hd (sub_newlines ?D) = 10)"
    proof
      assume h: "sub_newlines ?D \<noteq> [] \<and> hd (sub_newlines ?D) = 10"
      then have d: "?D \<noteq> []" by (simp only: sub_newlines_Nil_iff not_False_eq_True)
      then have "hd ?D = 10" using h hd_sub_newlines [OF d] by simp
      then show False using hd_dropWhile [OF d] by simp
    qed
    then have "\<not> has_blank_run (10 # sub_newlines ?D)"
      using 2(1) [OF True] by (simp only: has_blank_run_Cons) simp
    then show ?thesis using True by simp
  next
    case False
    then have n: "\<not> (c = 10 \<and> cs \<noteq> [] \<and> hd cs = 10)" by (simp only: newline_run) simp
    have "\<not> (c = 10 \<and> sub_newlines cs \<noteq> [] \<and> hd (sub_newlines cs) = 10)"
    proof
      assume h: "c = 10 \<and> sub_newlines cs \<noteq> [] \<and> hd (sub_newlines cs) = 10"
      then have d: "cs \<noteq> []" by (simp only: sub_newlines_Nil_iff not_False_eq_True)
      then have "hd cs = 10" using h hd_sub_newlines [OF d] by simp
      then show False using n h d by simp
    qed
    then have "\<not> has_blank_run (c # sub_newlines cs)"
      using 2(2) [OF False] by (simp only: has_blank_run_Cons) simp
    then show ?thesis using False by simp
  qed
qed

lemma length_sub_newlines: "length (sub_newlines s) \<le> length s"
proof (induction s rule: sub_newlines.induct)
  case 1
  then show ?case by simp
next
  case (2 c cs)
  show ?case
  proof (cases "2 \<le> length (takeWhile (\<lambda>x. x = 10) (c # cs))")
    case True
    then have "c = 10" by (simp only: newline_run)
    then have "length (dropWhile (\<lambda>x. x = 10) (c # cs)) \<le> length cs"
      by (simp add: length_dropWhile_le)
    then show ?thesis using True 2(1) [OF True] by simp
  next
    case False
    then show ?thesis using 2(2) [OF False] by simp
  qed
qed

section \<open>Stripping\<close>

lemma py_strip_infix: "\<exists>a b. s = a @ py_strip s @ b"
proof -
  let ?P = py_isspace
  let ?y = "dropWhile ?P s"
  have "rev (rev ?y) = rev (takeWhile ?P (rev ?y) @ dropWhile ?P (rev ?y))"
    by (simp only: takeWhile_dropWhile_id)
  also have "\<dots> = rev (dropWhile ?P (rev ?y)) @ rev (takeWhile ?P (rev ?y))"
    by (rule rev_append)
  finally have "?y = py_strip s @ rev (takeWhile ?P (rev ?y))"
    by (simp only: rev_rev_ident py_strip_def)
  moreover have "s = takeWhile ?P s @ ?y" by simp
  ultimately have "s = takeWhile ?P s @ py_strip s @ rev (takeWhile ?P (rev ?y))" by simp
  then show ?thesis by blast
qed

lemma length_py_strip: "length (py_strip s) \<le> length s"
proof -
  obtain a b where "s = a @ py_strip s @ b" using py_strip_infix by blast
  then have "length s = length a + length (py_strip s) + length b" by (metis length_append add.assoc)
  then show ?thesis by simp
qed

lemma last_dropWhile: "dropWhile P z \<noteq> [] \<Longrightarrow> last (dropWhile P z) = last z"
  by (metis last_appendR takeWhile_dropWhile_id)

lemma py_strip_ends:
  assumes "py_strip s \<noteq> []"
  shows "\<not> py_isspace (hd (py_strip s))" and "\<not> py_isspace (last (py_strip s))"
proof -
  let ?P = py_isspace
  let ?y = "dropWhile ?P s"
  let ?z = "dropWhile ?P (rev ?y)"
  have z: "?z \<noteq> []" using assms by (simp add: py_strip_def)
  have y: "?y \<noteq> []"
  proof
    assume "?y = []"
    then have "?z = []" by (simp only: rev.simps dropWhile.simps)
    then show False using z by simp
  qed
  have "last (py_strip s) = hd ?z" using z by (simp add: py_strip_def last_rev)
  then show "\<not> ?P (last (py_strip s))" using hd_dropWhile [OF z] by simp
  have "hd (py_strip s) = last ?z" using z by (simp add: py_strip_def hd_rev)
  also have "\<dots> = last (rev ?y)" using z by (rule last_dropWhile)
  also have "\<dots> = hd ?y" using y by (simp add: last_rev)
  finally show "\<not> ?P (hd (py_strip s))" using hd_dropWhile [OF y] by simp
qed

lemma py_strip_fixed:
  assumes "s = [] \<or> (\<not> py_isspace (hd s) \<and> \<not> py_isspace (last s))"
  shows "py_strip s = s"
proof (cases "s = []")
  case True
  then show ?thesis by (simp add: py_strip_def)
next
  case False
  then have h: "\<not> py_isspace (hd s)" and l: "\<not> py_isspace (last s)" using assms by auto
  have 1: "dropWhile py_isspace s = s" using False h by (cases s) auto
  have "\<not> py_isspace (hd (rev s))" using False l by (simp add: hd_rev)
  then have 2: "dropWhile py_isspace (rev s) = rev s" using False by (cases "rev s") auto
  show ?thesis by (simp add: py_strip_def 1 2)
qed

lemma py_strip_idem: "py_strip (py_strip s) = py_strip s"
  using py_strip_ends [of s] by (intro py_strip_fixed) auto

lemma newline_is_space: "py_isspace 10"
  by (simp add: py_isspace_def)

section \<open>The text written for a segment\<close>

lemma dec_digits_set: "c \<in> set (dec_digits n) \<Longrightarrow> 48 \<le> c \<and> c \<le> 57"
proof (induction n rule: dec_digits.induct)
  case (1 n)
  show ?case
  proof (cases "n < 10")
    case True
    then show ?thesis using 1(2) by (simp add: dec_digits_small)
  next
    case False
    have "n mod 10 < 10" by simp
    then show ?thesis using 1(1) [OF False] 1(2) False
      by (auto simp: dec_digits_large)
  qed
qed

lemma dec_digits_nonempty: "dec_digits n \<noteq> []"
  by (subst dec_digits.simps) simp

lemma py_str_int_no_newline: "10 \<notin> set (py_str_int i)"
  using dec_digits_set [of 10] by (auto simp: py_str_int_def)

lemma py_str_int_nonempty: "py_str_int i \<noteq> []"
  by (simp add: py_str_int_def dec_digits_nonempty)

lemma py_format_0_no_newline: "10 \<notin> set (py_format_0 w i)"
  using dec_digits_set [of 10] by (auto simp: py_format_0_def Let_def)

lemma format_srt_time_no_newline:
  assumes "format_srt_time v = Inr a"
  shows "10 \<notin> set a" and "a \<noteq> []"
proof -
  from assms obtain h m s ms where
    a: "a = py_format_0 2 h @ py_str '':'' @ py_format_0 2 m @ py_str '':'' @
            py_format_0 2 s @ py_str '','' @ py_format_0 3 ms"
    by (auto simp: format_srt_time_def split: sum.splits)
  show "10 \<notin> set a" unfolding a by (simp add: py_format_0_no_newline py_str_def)
  show "a \<noteq> []" unfolding a by (simp add: py_str_def)
qed

lemma write_segment_Inr:
  assumes "write_segment f seg = Inr out"
  obtains a b where "format_srt_time (seg_start seg) = Inr a"
    and "format_srt_time (seg_end seg) = Inr b"
    and "out = f @ py_str_int (seg_id seg + 1) @ 10 # a @ py_str '' --> '' @ b @
               10 # py_strip (seg_text seg) @ [10, 10]"
  using assms by (auto simp: write_segment_def Let_def py_str_def split: sum.splits)

lemma write_segment_ok:
  assumes "format_srt_time (seg_start seg) = Inr a" and "format_srt_time (seg_end seg) = Inr b"
  shows "write_segment f seg =
    Inr (f @ (py_str_int (seg_id seg + 1) @ 10 # a @ py_str '' --> '' @ b @
              10 # py_strip (seg_text seg)) @ [10, 10])"
  using assms by (simp add: write_segment_def Let_def py_str_def)

lemma is_finite_format:
  assumes "is_finite v"
  obtains a where "format_srt_time v = Inr a"
proof -
  from assms obtain x where "v = Fin x" and "is_double x" by (cases v) auto
  then show ?thesis using format_srt_time_finite [of x] that by auto
qed

text \<open>The index line of a block.\<close>

lemma index_line:
  assumes "write_segment [] seg = Inr b"
  shows "takeWhile (\<lambda>c. c \<noteq> 10) b = py_str_int (seg_id seg + 1)"
proof -
  from assms obtain r where b: "b = py_str_int (seg_id seg + 1) @ 10 # r"
    by (rule write_segment_Inr) simp
  have "\<forall>c \<in> set (py_str_int (seg_id seg + 1)). c \<noteq> 10"
    using py_str_int_no_newline by auto
  then show ?thesis unfolding b by (simp add: takeWhile_tail)
qed

lemma write_segment_prefix:
  assumes "write_segment f seg = Inr out"
  obtains b where "write_segment [] seg = Inr b" and "out = f @ b"
proof -
  from assms obtain a b where a: "format_srt_time (seg_start seg) = Inr a"
    and b: "format_srt_time (seg_end seg) = Inr b"
    and out: "out = f @ py_str_int (seg_id seg + 1) @ 10 # a @ py_str '' --> '' @ b @
               10 # py_strip (seg_text seg) @ [10, 10]"
    by (rule write_segment_Inr)
  show ?thesis
    using that [OF write_segment_ok [OF a b, of "[]"]] out by simp
qed

lemma write_segments_blocks:
  "write_segments f segs = Inr out \<Longrightarrow>
   \<exists>bs. out = f @ concat bs \<and> list_all2 (\<lambda>seg b. write_segment [] seg = Inr b) segs bs"
proof (induction segs arbitrary: f)
  case Nil
  then show ?case by simp
next
  case (Cons seg segs)
  from Cons.prems obtain f' where w: "write_segment f seg = Inr f'"
    and r: "write_segments f' segs = Inr out"
    by (auto split: sum.splits)
  from w obtain b where b: "write_segment [] seg = Inr b" and f': "f' = f @ b"
    by (rule write_segment_prefix)
  from Cons.IH [OF r] obtain bs where "out = f' @ concat bs"
    and "list_all2 (\<lambda>seg b. write_segment [] seg = Inr b) segs bs" by blast
  then have "out = f @ concat (b # bs)"
    and "list_all2 (\<lambda>seg b. write_segment [] seg = Inr b) (seg # segs) (b # bs)"
    using b f' by simp_all
  then show ?case by blast
qed

lemma write_segments_finite:
  "\<forall>seg \<in> set segs. is_finite (seg_start seg) \<and> is_finite (seg_end seg) \<Longrightarrow>
   \<exists>out. write_segments f segs = Inr out"
proof (induction segs arbitrary: f)
  case Nil
  then show ?case by simp
next
  case (Cons seg segs)
  then have "is_finite (seg_start seg)" and "is_finite (seg_end seg)" by simp_all
  then obtain a b where "format_srt_time (seg_start seg) = Inr a"
    and "format_srt_time (seg_end seg) = Inr b"
    by (metis is_finite_format)
  then obtain f' where "write_segment f seg = Inr f'" using write_segment_ok by blast
  then show ?case using Cons.IH [of f'] Cons.prems by simp
qed

section \<open>Blocks\<close>

lemma split_blank_block:
  "\<not> has_blank_run b \<Longrightarrow> b \<noteq> [] \<Longrightarrow> last b \<noteq> 10 \<Longrightarrow>
   split_blank cur (b @ 10 # 10 # rest) = (rev cur @ b) # split_blank [] rest"
proof (induction b arbitrary: cur)
  case Nil
  then show ?case by simp
next
  case (Cons c b)
  show ?case
  proof (cases b)
    case Nil
    then have "c \<noteq> 10" using Cons.prems by simp
    then show ?thesis using Nil by simp
  next
    case (Cons d b')
    then have n: "\<not> (c = 10 \<and> d = 10)" and h: "\<not> has_blank_run b" and l: "last b \<noteq> 10"
      using Cons.prems by auto
    have "split_blank cur ((c # b) @ 10 # 10 # rest) = split_blank (c # cur) (b @ 10 # 10 # rest)"
      using n Cons by auto
    also have "\<dots> = (rev (c # cur) @ b) # split_blank [] rest"
      using h l Cons by (intro Cons.IH) simp_all
    finally show ?thesis by simp
  qed
qed

lemma split_blank_blocks:
  "list_all (\<lambda>b. is_block b \<and> \<not> has_blank_run b) bs \<Longrightarrow>
   split_blank [] (concat (map (\<lambda>b. b @ [10, 10]) bs)) = bs @ [[]]"
proof (induction bs)
  case Nil
  then show ?case by simp
next
  case (Cons b bs)
  then have b: "\<not> has_blank_run b" "b \<noteq> []" "last b \<noteq> 10"
    and r: "list_all (\<lambda>b. is_block b \<and> \<not> has_blank_run b) bs"
    by (simp_all add: is_block_def)
  have "split_blank [] (concat (map (\<lambda>b. b @ [10, 10]) (b # bs))) =
        split_blank [] (b @ 10 # 10 # concat (map (\<lambda>b. b @ [10, 10]) bs))"
    by simp
  also have "\<dots> = (rev [] @ b) # split_blank [] (concat (map (\<lambda>b. b @ [10, 10]) bs))"
    using b by (rule split_blank_block)
  finally show ?case using Cons.IH [OF r] by simp
qed

lemma body_is_block:
  assumes a: "10 \<notin> set a" "a \<noteq> []" and b: "10 \<notin> set b"
    and t: "py_strip t \<noteq> []" "\<not> has_blank_run (py_strip t)"
  shows "is_block (py_str_int i @ 10 # a @ py_str '' --> '' @ b @ 10 # py_strip t)"
    and "\<not> has_blank_run (py_str_int i @ 10 # a @ py_str '' --> '' @ b @ 10 # py_strip t)"
proof -
  let ?T = "a @ py_str '' --> '' @ b"
  have T: "10 \<notin> set ?T" "?T \<noteq> []" using a b by (simp_all add: py_str_def)
  have e: "\<not> py_isspace (hd (py_strip t))" "\<not> py_isspace (last (py_strip t))"
    using py_strip_ends [OF t(1)] by simp_all
  then have h: "hd (py_strip t) \<noteq> 10" and l: "last (py_strip t) \<noteq> 10"
    using newline_is_space by auto
  have "hd (py_str_int i) \<noteq> 10"
    using py_str_int_no_newline [of i] py_str_int_nonempty [of i] hd_in_set by metis
  then show "is_block (py_str_int i @ 10 # a @ py_str '' --> '' @ b @ 10 # py_strip t)"
    using l t(1) py_str_int_nonempty [of i] by (simp add: is_block_def)
  have 1: "\<not> has_blank_run (10 # py_strip t)"
    using h t by (simp only: has_blank_run_Cons) simp
  have 2: "\<not> has_blank_run (?T @ 10 # py_strip t)"
    using 1 unfolding has_blank_run_no_newline [OF T(1)] .
  have "hd (?T @ 10 # py_strip t) \<noteq> 10" using T hd_in_set [of ?T] by (auto simp: hd_append)
  then have 3: "\<not> has_blank_run (10 # ?T @ 10 # py_strip t)"
    using 2 by (simp only: has_blank_run_Cons) simp
  have "\<not> has_blank_run (py_str_int i @ 10 # ?T @ 10 # py_strip t)"
    using 3 unfolding has_blank_run_no_newline [OF py_str_int_no_newline] .
  then show "\<not> has_blank_run (py_str_int i @ 10 # a @ py_str '' --> '' @ b @ 10 # py_strip t)"
    by simp
qed

lemma write_segments_split:
  "\<forall>seg \<in> set segs. is_finite (seg_start seg) \<and> is_finite (seg_end seg) \<and>
      py_strip (seg_text seg) \<noteq> [] \<and> \<not> has_blank_run (py_strip (seg_text seg)) \<Longrightarrow>
   \<exists>bs. write_segments f segs = Inr (f @ concat (map (\<lambda>b. b @ [10, 10]) bs)) \<and>
        length bs = length segs \<and> list_all (\<lambda>b. is_block b \<and> \<not> has_blank_run b) bs"
proof (induction segs arbitrary: f)
  case Nil
  then show ?case by simp
next
  case (Cons seg segs)
  then have fs: "is_finite (seg_start seg)" and fe: "is_finite (seg_end seg)"
    and t: "py_strip (seg_text seg) \<noteq> []" "\<not> has_blank_run (py_strip (seg_text seg))"
    by simp_all
  from fs obtain a where a: "format_srt_time (seg_start seg) = Inr a" by (rule is_finite_format)
  from fe obtain b where b: "format_srt_time (seg_end seg) = Inr b" by (rule is_finite_format)
  define body where "body = py_str_int (seg_id seg + 1) @ 10 # a @ py_str '' --> '' @ b @
              10 # py_strip (seg_text seg)"
  have w: "write_segment f seg = Inr (f @ body @ [10, 10])"
    unfolding body_def using a b by (rule write_segment_ok)
  have blk: "is_block body" "\<not> has_blank_run body"
    unfolding body_def
    using format_srt_time_no_newline [OF a] format_srt_time_no_newline(1) [OF b] t
    by (intro body_is_block; simp)+
  from Cons.prems have "\<forall>seg \<in> set segs. is_finite (seg_start seg) \<and> is_finite (seg_end seg) \<and>
      py_strip (seg_text seg) \<noteq> [] \<and> \<not> has_blank_run (py_strip (seg_text seg))" by simp
  from Cons.IH [OF this, of "f @ body @ [10, 10]"] obtain bs where
    bs: "write_segments (f @ body @ [10, 10]) segs =
           Inr ((f @ body @ [10, 10]) @ concat (map (\<lambda>b. b @ [10, 10]) bs))"
      "length bs = length segs" "list_all (\<lambda>b. is_block b \<and> \<not> has_blank_run b) bs"
    by blast
  have "write_segments f (seg # segs) = Inr (f @ concat (map (\<lambda>b. b @ [10, 10]) (body # bs)))"
    using w bs(1) by simp
  moreover have "length (body # bs) = length (seg # segs)" using bs(2) by simp
  moreover have "list_all (\<lambda>b. is_block b \<and> \<not> has_blank_run b) (body # bs)"
    using blk bs(3) by simp
  ultimately show ?case by blast
qed

lemma encode_splits:
  assumes "\<forall>seg \<in> set segs. is_finite (seg_start seg) \<and> is_finite (seg_end seg) \<and>
      py_strip (seg_text seg) \<noteq> [] \<and> \<not> has_blank_run (py_strip (seg_text seg))"
  shows "\<exists>out. encode segs = Inr out \<and> splits_into_blocks (length segs) out"
proof -
  from write_segments_split [OF assms, of "[]"] obtain bs where
    w: "write_segments [] segs = Inr (concat (map (\<lambda>b. b @ [10, 10]) bs))"
    and n: "length bs = length segs"
    and b: "list_all (\<lambda>b. is_block b \<and> \<not> has_blank_run b) bs"
    by auto
  have s: "split_blank [] (concat (map (\<lambda>b. b @ [10, 10]) bs)) = bs @ [[]]"
    using b by (rule split_blank_blocks)
  have "list_all is_block bs" using b by (simp add: list_all_iff)
  then have "splits_into_blocks (length segs) (concat (map (\<lambda>b. b @ [10, 10]) bs))"
    using n by (simp add: splits_into_blocks_def s)
  then show ?thesis using w by (simp add: encode_def)
qed

section \<open>Decoding plain text\<close>

lemma srt_to_text_plain:
  assumes "\<not> has_markup nd s"
  shows "srt_to_text nd s = py_strip (sub_newlines s)"
  by (simp add: srt_to_text_def sub_markup_id [OF assms])

lemma srt_to_text_twice:
  assumes "\<not> has_markup nd s" and "\<not> has_markup nd (sub_newlines s)"
  shows "srt_to_text nd (srt_to_text nd s) = srt_to_text nd s"
proof -
  define u where "u = sub_newlines s"
  have t: "srt_to_text nd s = py_strip u" using assms(1) by (simp add: srt_to_text_plain u_def)
  obtain a b where ab: "u = a @ py_strip u @ b" using py_strip_infix by blast
  have "\<not> has_markup nd (py_strip u)"
  proof
    assume "has_markup nd (py_strip u)"
    then have "has_markup nd (a @ py_strip u @ b)"
      by (intro has_markup_prepend has_markup_append)
    then show False using ab assms(2) by (simp add: u_def)
  qed
  moreover have "\<not> has_blank_run (py_strip u)"
  proof
    assume "has_blank_run (py_strip u)"
    then have "has_blank_run (a @ py_strip u @ b)"
      by (intro has_blank_run_prepend has_blank_run_append)
    then show False using ab sub_newlines_no_run [of s] by (simp add: u_def)
  qed
  ultimately have "srt_to_text nd (py_strip u) = py_strip (py_strip u)"
    by (simp add: srt_to_text_plain sub_newlines_id)
  then show ?thesis by (simp add: t py_strip_idem)
qed

lemma length_srt_to_text: "length (srt_to_text nd s) \<le> length s"
proof -
  have "length (srt_to_text nd s) \<le> length (sub_newlines (sub_markup nd s))"
    unfolding srt_to_text_def by (rule length_py_strip)
  also have "\<dots> \<le> length (sub_markup nd s)" by (rule length_sub_newlines)
  also have "\<dots> \<le> length s" by (rule length_sub_markup)
  finally show ?thesis .
qed

section \<open>Examples\<close>

lemma encode_id_5:
  "encode [\<lparr>seg_id = 5, seg_start = fl 0, seg_end = fl 1, seg_text = py_str ''a''\<rparr>] =
   Inr (py_str ''6\<newline>00:00:00,000 --> 00:00:01,000\<newline>a\<newline>\<newline>'')"
  by (simp add: encode_simps py_str_def fl_simps format_srt_time_0 format_srt_time_1)

lemma encode_blank_line:
  "encode [\<lparr>seg_id = 0, seg_start = fl 0, seg_end = fl 1, seg_text = py_str ''a\<newline>\<newline>b''\<rparr>] =
   Inr (py_str ''1\<newline>00:00:00,000 --> 00:00:01,000\<newline>a\<newline>\<newline>b\<newline>\<newline>'')"
  by (simp add: encode_simps py_str_def fl_simps format_srt_time_0 format_srt_time_1)

lemma not_split_blank_line:
  "\<not> splits_into_blocks 1
     (py_str ''1\<newline>00:00:00,000 --> 00:00:01,000\<newline>a\<newline>\<newline>b\<newline>\<newline>'')"
  by (simp add: splits_into_blocks_def py_str_def Let_def)

lemma rnd_058: "rnd (29 / 50) = 5224175567749775 / 9007199254740992"
  by (subst rnd_eval [of "- 1"]) (simp_all add: eval_simps)

lemma fl_058: "fl (58 / 100) = Fin (5224175567749775 / 9007199254740992)"
  by (simp add: fl_def rnd_058 max_double_def)

lemma is_double_058: "is_double (5224175567749775 / 9007199254740992)"
proof -
  have "rnd (of_int 5224175567749775 * 2 powi (- 53)) = of_int 5224175567749775 * 2 powi (- 53)"
    by (rule rnd_repr) simp_all
  then show ?thesis by (simp add: is_double_def max_double_def)
qed

lemma rnd_580_ms:
  "rnd ((5224175567749775 / 9007199254740992 -
         of_int \<lfloor>5224175567749775 / 9007199254740992 :: rat\<rfloor>) * 1000) = 580"
  by (subst rnd_eval [of 9]) (simp_all add: eval_simps)

lemma format_058:
  "format_srt_time (Fin (5224175567749775 / 9007199254740992)) = Inr (py_str ''00:00:00,580'')"
  by (subst format_srt_time_nonneg [OF is_double_058], simp, simp, simp only: rnd_580_ms)
     (simp add: eval_simps py_format_0_def py_str_def dec_digits_small dec_digits_large)

lemma spec_058:
  "spec_srt_time (5224175567749775 / 9007199254740992) = py_str ''00:00:00,579''"
  by (simp add: spec_srt_time_def eval_simps py_format_0_def py_str_def dec_digits_small
        dec_digits_large)

lemmas markup_simps = srt_simps ascii_digits_only_def

lemma plain_sentence:
  "\<not> has_markup ascii_digits_only (py_str ''just a plain sentence'')"
  "\<not> has_blank_run (py_str ''just a plain sentence'')"
  "py_strip (py_str ''just a plain sentence'') = py_str ''just a plain sentence''"
  by (simp_all add: markup_simps)

lemma blank_line_text:
  "\<not> has_markup ascii_digits_only (py_str ''a\<newline>\<newline>b'')"
  "srt_to_text ascii_digits_only (py_str ''a\<newline>\<newline>b'') = py_str ''a\<newline>b''"
  "py_strip (py_str ''a\<newline>\<newline>b'') = py_str ''a\<newline>\<newline>b''"
  by (simp_all add: markup_simps)

lemma split_markup:
  "\<not> has_markup ascii_digits_only
       (py_str ''1\<newline>\<newline>00:00:00,000 --> 00:00:01,000\<newline>hi'')"
  "srt_to_text ascii_digits_only
       (py_str ''1\<newline>\<newline>00:00:00,000 --> 00:00:01,000\<newline>hi'') =
     py_str ''1\<newline>00:00:00,000 --> 00:00:01,000\<newline>hi''"
  "srt_to_text ascii_digits_only
       (py_str ''1\<newline>00:00:00,000 --> 00:00:01,000\<newline>hi'') = py_str ''hi''"
  by (simp_all add: markup_simps)

lemma spaced_text:
  "\<not> has_markup ascii_digits_only (py_str '' a\<newline>\<newline>\<newline>b '')"
  "\<not> has_markup ascii_digits_only (sub_newlines (py_str '' a\<newline>\<newline>\<newline>b ''))"
  "srt_to_text ascii_digits_only (py_str '' a\<newline>\<newline>\<newline>b '') = py_str ''a\<newline>b''"
  by (simp_all add: markup_simps)

lemma format_not_finite:
  "format_srt_time NaN = Inl ValueError"
  "format_srt_time PosInf = Inl ValueError"
  "format_srt_time NegInf = Inl ValueError"
  by (simp_all add: format_srt_time_def float_floordiv_def float_sub_def snap_quotient_def Let_def)

lemma is_finite_examples:
  "is_finite (fl 0)" "is_finite (fl 1)" "is_finite (fl 2)" "is_finite (fl 3)" "is_finite (fl (3 / 2))"
  by (simp_all add: fl_simps fl_numeral is_double_0 is_double_1 is_double_numeral
        is_double_three_halves)

lemma is_double_1e20: "is_double 100000000000000000000"
proof -
  have "rnd (of_int 95367431640625 * 2 powi 20) = of_int 95367431640625 * 2 powi 20"
    by (rule rnd_repr) simp_all
  then show ?thesis by (simp add: is_double_def max_double_def)
qed

lemma rnd_1e20_sub: "rnd 99999999999999997200 = 100000000000000000000"
  by (subst rnd_eval [of 66]) (simp_all add: eval_simps)

lemma rnd_1e20_div: "rnd (250000000000000000 / 9) = 27777777777777776"
  by (subst rnd_eval [of 54]) (simp_all add: eval_simps)

lemma floordiv_1e20: "float_floordiv (Fin 100000000000000000000) 3600 = Fin 27777777777777776"
proof -
  have m: "c_fmod (Fin 100000000000000000000) 3600 = Fin 2800"
    by (simp add: trunc_def eval_simps)
  have s: "float_sub (Fin 100000000000000000000) (Fin 2800) = Fin 100000000000000000000"
    by (simp add: float_sub_def fl_def rnd_1e20_sub max_double_def)
  have d: "float_div (Fin 100000000000000000000) 3600 = Fin 27777777777777776"
    by (simp add: fl_def rnd_1e20_div max_double_def)
  have q: "snap_quotient (Fin 27777777777777776) = Fin 27777777777777776"
    using snap_quotient_of_int [of 27777777777777776] by simp
  show ?thesis unfolding float_floordiv_def Let_def m s d by (simp add: q)
qed

lemma format_1e20:
  "format_srt_time (Fin 100000000000000000000) = Inr (py_str ''27777777777777776:46:40,000'')"
proof -
  have r: "float_rem (Fin 100000000000000000000) 3600 = Fin 2800"
    by (subst float_rem_nonneg) (simp_all add: eval_simps)
  have m: "float_floordiv (Fin 2800) 60 = Fin 46"
    using float_floordiv_nonneg [of 2800 60] by (simp add: eval_simps)
  have s: "float_rem (Fin 100000000000000000000) 60 = Fin 40"
    by (subst float_rem_nonneg) (simp_all add: eval_simps)
  have t: "trunc 100000000000000000000 = 100000000000000000000"
    using trunc_of_int [of 100000000000000000000] by simp
  have fi: "float_of_int 100000000000000000000 = Inr (Fin 100000000000000000000)"
    using float_frac_ms(1) [OF is_double_1e20] by (simp add: t)
  have ms: "float_mul (float_sub (Fin 100000000000000000000) (Fin 100000000000000000000))
      (Fin 1000) = Fin 0"
    using float_frac_ms(2) [OF is_double_1e20] by (simp add: t rnd_0)
  have tr: "trunc 27777777777777776 = 27777777777777776" "trunc 46 = 46" "trunc 40 = 40"
    "trunc 0 = 0"
    by (simp_all add: trunc_def)
  show ?thesis
    unfolding format_srt_time_def floordiv_1e20 r m s py_int.simps t tr sum.case fi ms
    by (simp add: py_format_0_def py_str_def dec_digits_small dec_digits_large eval_simps)
qed

lemma spec_1e20:
  "spec_srt_time 100000000000000000000 = py_str ''27777777777777777:46:40,000''"
  by (simp add: spec_srt_time_def eval_simps py_format_0_def py_str_def dec_digits_small
        dec_digits_large)

section \<open>The claims of the specification\<close>

text \<open>
  C1, as the code has it.  The output is the concatenation of one block per segment, in
  order, and the index line of a block is the decimal numeral of the id the segment
  carries plus one (\<open>segment['id'] + 1\<close>).  The loop keeps no counter: the index line is
  the 1-based position of the block when the segment carries its 0-based position as its
  id, which is how Whisper numbers its segments.
\<close>

theorem index_line_is_id_plus_one:
  assumes "encode segs = Inr out"
  shows "\<exists>bs. out = concat bs \<and> length bs = length segs \<and>
    (\<forall>k < length segs.
       takeWhile (\<lambda>c. c \<noteq> 10) (bs ! k) = py_str_int (seg_id (segs ! k) + 1) \<and>
       (seg_id (segs ! k) = int k \<longrightarrow>
        takeWhile (\<lambda>c. c \<noteq> 10) (bs ! k) = py_str_int (int k + 1)))"
proof -
  from assms obtain bs where out: "out = concat bs"
    and bs: "list_all2 (\<lambda>seg b. write_segment [] seg = Inr b) segs bs"
    using write_segments_blocks [of "[]" segs out] by (auto simp: encode_def)
  have n: "length bs = length segs" using bs by (simp add: list_all2_lengthD)
  have "takeWhile (\<lambda>c. c \<noteq> 10) (bs ! k) = py_str_int (seg_id (segs ! k) + 1)"
    if "k < length segs" for k
    using list_all2_nthD [OF bs that] by (rule index_line)
  then show ?thesis using out n by auto
qed

theorem index_line_is_id_plus_one_witness:
  "encode [\<lparr>seg_id = 0, seg_start = fl 0, seg_end = fl (3 / 2), seg_text = py_str ''hello''\<rparr>] =
     Inr (py_str ''1\<newline>00:00:00,000 --> 00:00:01,500\<newline>hello\<newline>\<newline>'') \<and>
   (\<exists>bs. py_str ''1\<newline>00:00:00,000 --> 00:00:01,500\<newline>hello\<newline>\<newline>'' = concat bs \<and>
      length bs = length [\<lparr>seg_id = 0, seg_start = fl 0, seg_end = fl (3 / 2), seg_text = py_str ''hello''\<rparr>] \<and>
      (\<forall>k < length [\<lparr>seg_id = 0, seg_start = fl 0, seg_end = fl (3 / 2), seg_text = py_str ''hello''\<rparr>].
         takeWhile (\<lambda>c. c \<noteq> 10) (bs ! k) =
           py_str_int (seg_id ([\<lparr>seg_id = 0, seg_start = fl 0, seg_end = fl (3 / 2), seg_text = py_str ''hello''\<rparr>] ! k) + 1) \<and>
         (seg_id ([\<lparr>seg_id = 0, seg_start = fl 0, seg_end = fl (3 / 2), seg_text = py_str ''hello''\<rparr>] ! k) = int k \<longrightarrow>
          takeWhile (\<lambda>c. c \<noteq> 10) (bs ! k) = py_str_int (int k + 1))))"
  using hello_encoding index_line_is_id_plus_one [OF hello_encoding] by (rule conjI)

text \<open>
  C1 as stated fails: a single segment that carries the id 5 is written with the index
  line \<open>6\<close>, though it is the first block of the output.
\<close>

theorem index_line_counterexample:
  "encode [\<lparr>seg_id = 5, seg_start = fl 0, seg_end = fl 1, seg_text = py_str ''a''\<rparr>] =
     Inr (py_str ''6\<newline>00:00:00,000 --> 00:00:01,000\<newline>a\<newline>\<newline>'') \<and>
   encode [\<lparr>seg_id = 5, seg_start = fl 0, seg_end = fl 1, seg_text = py_str ''a''\<rparr>] \<noteq>
     Inr (py_str ''1\<newline>00:00:00,000 --> 00:00:01,000\<newline>a\<newline>\<newline>'')"
  unfolding encode_id_5 by (simp add: py_str_def)

text \<open>
  C2, as the code has it.  For every double \<open>x\<close> with \<open>0 \<le> x \<le> 2^53\<close> the timestamp has
  \<open>h = floor(x / 3600)\<close>, \<open>m = floor((x mod 3600) / 60)\<close> and \<open>s = floor(x mod 60)\<close>, each
  padded with zeros to two digits, and the milliseconds are the floor of the product
  \<open>(x - floor(x)) * 1000\<close> as floating-point multiplication gives it, rounded to the
  nearest double, padded to three digits.  The fields are truncated, but the product is
  rounded before it is truncated.
\<close>

theorem format_srt_time_fields:
  assumes "is_double x" and "0 \<le> x" and "x \<le> 2 ^ 53"
  shows "format_srt_time (Fin x) = Inr
     (py_format_0 2 \<lfloor>x / 3600\<rfloor> @ py_str '':'' @
      py_format_0 2 \<lfloor>(x - 3600 * of_int \<lfloor>x / 3600\<rfloor>) / 60\<rfloor> @ py_str '':'' @
      py_format_0 2 \<lfloor>x - 60 * of_int \<lfloor>x / 60\<rfloor>\<rfloor> @ py_str '','' @
      py_format_0 3 \<lfloor>rnd ((x - of_int \<lfloor>x\<rfloor>) * 1000)\<rfloor>)"
  using assms by (rule format_srt_time_nonneg)

theorem format_srt_time_fields_witness:
  "is_double (3 / 2) \<and> (0::rat) \<le> 3 / 2 \<and> (3 / 2 :: rat) \<le> 2 ^ 53 \<and>
   format_srt_time (Fin (3 / 2)) = Inr
     (py_format_0 2 \<lfloor>(3 / 2 :: rat) / 3600\<rfloor> @ py_str '':'' @
      py_format_0 2 \<lfloor>((3 / 2 :: rat) - 3600 * of_int \<lfloor>(3 / 2 :: rat) / 3600\<rfloor>) / 60\<rfloor> @ py_str '':'' @
      py_format_0 2 \<lfloor>(3 / 2 :: rat) - 60 * of_int \<lfloor>(3 / 2 :: rat) / 60\<rfloor>\<rfloor> @ py_str '','' @
      py_format_0 3 \<lfloor>rnd (((3 / 2 :: rat) - of_int \<lfloor>3 / 2 :: rat\<rfloor>) * 1000)\<rfloor>)"
proof -
  have a: "is_double (3 / 2)" by (rule is_double_three_halves)
  have b: "(0::rat) \<le> 3 / 2" by simp
  have c: "(3 / 2 :: rat) \<le> 2 ^ 53" by simp
  from a b c format_srt_time_fields [OF a b c] show ?thesis by (intro conjI)
qed

text \<open>
  C2 as stated fails.  The double nearest to 0.58 lies just below it, so the floor of its
  fractional part times 1000 is 579; the code multiplies in floating point, the product
  rounds to 580, and the timestamp is \<open>00:00:00,580\<close>.  And far beyond \<open>2^53\<close> the
  quotient of the floor division is itself rounded: at \<open>10^20\<close> seconds, which is a double,
  the hours are \<open>27777777777777777\<close> and the code prints \<open>27777777777777776\<close>.
\<close>

theorem format_srt_time_fields_counterexample:
  "fl (58 / 100) = Fin (5224175567749775 / 9007199254740992) \<and>
   format_srt_time (Fin (5224175567749775 / 9007199254740992)) = Inr (py_str ''00:00:00,580'') \<and>
   spec_srt_time (5224175567749775 / 9007199254740992) = py_str ''00:00:00,579'' \<and>
   format_srt_time (Fin (5224175567749775 / 9007199254740992)) \<noteq>
     Inr (spec_srt_time (5224175567749775 / 9007199254740992)) \<and>
   is_double 100000000000000000000 \<and>
   format_srt_time (Fin 100000000000000000000) = Inr (py_str ''27777777777777776:46:40,000'') \<and>
   spec_srt_time 100000000000000000000 = py_str ''27777777777777777:46:40,000''"
  using fl_058 format_058 spec_058 is_double_1e20 format_1e20 spec_1e20
  by (simp add: py_str_def)

text \<open>
  C3, as the code has it.  The start time written \<open>3661.999\<close> is the double nearest to
  that decimal, which lies just below it; the fractional part of that double times 1000
  is a double just below 999, and \<open>int\<close> truncates it: the timestamp is
  \<open>01:01:01,998\<close>.  Hours, minutes and seconds are \<open>01:01:01\<close>, and nothing is carried.
\<close>

theorem format_srt_time_boundary:
  "format_srt_time (fl (3661999 / 1000)) = Inr (py_str ''01:01:01,998'')"
  by (rule format_3661_999)

text \<open>C3 as stated fails: the timestamp of \<open>3661.999\<close> is not \<open>01:01:01,999\<close>.\<close>

theorem format_srt_time_boundary_counterexample:
  "format_srt_time (fl (3661999 / 1000)) \<noteq> Inr (py_str ''01:01:01,999'')"
  by (simp add: format_3661_999 py_str_def)

text \<open>
  C4, as the code has it.  On an input in which the pattern matches nowhere,
  \<open>srt_to_text\<close> returns the input with every run of two or more newlines replaced by one
  newline, and then trimmed; it returns the trimmed input when the input has no two
  consecutive newlines.
\<close>

theorem srt_to_text_no_markup:
  assumes "\<not> has_markup nd s"
  shows "srt_to_text nd s = py_strip (sub_newlines s) \<and>
         (\<not> has_blank_run s \<longrightarrow> srt_to_text nd s = py_strip s)"
  using srt_to_text_plain [OF assms] by (simp add: sub_newlines_id)

theorem srt_to_text_no_markup_witness:
  "\<not> has_markup ascii_digits_only (py_str ''just a plain sentence'') \<and>
   \<not> has_blank_run (py_str ''just a plain sentence'') \<and>
   srt_to_text ascii_digits_only (py_str ''just a plain sentence'') =
     py_str ''just a plain sentence''"
proof -
  from srt_to_text_no_markup [OF plain_sentence(1)] plain_sentence(2)
  have "srt_to_text ascii_digits_only (py_str ''just a plain sentence'') =
      py_strip (py_str ''just a plain sentence'')"
    by blast
  then have "srt_to_text ascii_digits_only (py_str ''just a plain sentence'') =
      py_str ''just a plain sentence''"
    by (simp only: plain_sentence(3))
  with plain_sentence(1) plain_sentence(2) show ?thesis by (intro conjI)
qed

text \<open>
  C4 as stated fails: the text \<open>a\<close>, two newlines, \<open>b\<close> has no match of the pattern and no
  outer whitespace, and \<open>srt_to_text\<close> returns it with one newline.
\<close>

theorem srt_to_text_no_markup_counterexample:
  "\<not> has_markup ascii_digits_only (py_str ''a\<newline>\<newline>b'') \<and>
   srt_to_text ascii_digits_only (py_str ''a\<newline>\<newline>b'') = py_str ''a\<newline>b'' \<and>
   srt_to_text ascii_digits_only (py_str ''a\<newline>\<newline>b'') \<noteq> py_strip (py_str ''a\<newline>\<newline>b'')"
  by (simp add: blank_line_text) (simp add: py_str_def)

text \<open>
  C5, as the code has it.  \<open>srt_to_text\<close> applied twice gives what it gives applied once
  on every input in which the pattern matches nowhere, neither as it stands nor after its
  runs of newlines are collapsed.
\<close>

theorem srt_to_text_idempotent:
  assumes "\<not> has_markup nd s" and "\<not> has_markup nd (sub_newlines s)"
  shows "srt_to_text nd (srt_to_text nd s) = srt_to_text nd s"
  using assms by (rule srt_to_text_twice)

theorem srt_to_text_idempotent_witness:
  "\<not> has_markup ascii_digits_only (py_str '' a\<newline>\<newline>\<newline>b '') \<and>
   srt_to_text ascii_digits_only (py_str '' a\<newline>\<newline>\<newline>b '') = py_str ''a\<newline>b'' \<and>
   srt_to_text ascii_digits_only (srt_to_text ascii_digits_only (py_str '' a\<newline>\<newline>\<newline>b '')) =
     srt_to_text ascii_digits_only (py_str '' a\<newline>\<newline>\<newline>b '')"
  using srt_to_text_idempotent [OF spaced_text(1) spaced_text(2)] spaced_text(1) spaced_text(3)
  by (intro conjI)

text \<open>
  C5 as stated fails: in the text \<open>1\<close>, two newlines, a timing line, \<open>hi\<close> the pattern
  matches nowhere, because of the blank line after the index.  The first pass removes the
  blank line, and the second pass then strips the markup.
\<close>

theorem srt_to_text_idempotent_counterexample:
  "\<not> has_markup ascii_digits_only
       (py_str ''1\<newline>\<newline>00:00:00,000 --> 00:00:01,000\<newline>hi'') \<and>
   srt_to_text ascii_digits_only
       (py_str ''1\<newline>\<newline>00:00:00,000 --> 00:00:01,000\<newline>hi'') =
     py_str ''1\<newline>00:00:00,000 --> 00:00:01,000\<newline>hi'' \<and>
   srt_to_text ascii_digits_only (srt_to_text ascii_digits_only
       (py_str ''1\<newline>\<newline>00:00:00,000 --> 00:00:01,000\<newline>hi'')) = py_str ''hi'' \<and>
   srt_to_text ascii_digits_only (srt_to_text ascii_digits_only
       (py_str ''1\<newline>\<newline>00:00:00,000 --> 00:00:01,000\<newline>hi'')) \<noteq>
     srt_to_text ascii_digits_only
       (py_str ''1\<newline>\<newline>00:00:00,000 --> 00:00:01,000\<newline>hi'')"
  by (simp add: split_markup) (simp add: py_str_def)

text \<open>
  C6: the round trip through the codec strips all markup.  Decoding the encoding of the
  single segment from 0 to 1.5 with text \<open>hello\<close> gives exactly \<open>hello\<close>, and decoding the
  encoding of the two segments from 0 to 1 with text \<open>a\<close> and from 2 to 3 with text \<open>b\<close>
  gives exactly \<open>a\<close>, one newline, \<open>b\<close>.  The segments carry the ids 0 and 1 that Whisper
  gives them; the statement holds whatever the decimal digits beyond ASCII are.
\<close>

theorem round_trip:
  "(case encode [\<lparr>seg_id = 0, seg_start = fl 0, seg_end = fl (3 / 2), seg_text = py_str ''hello''\<rparr>]
    of Inl e \<Rightarrow> None | Inr srt \<Rightarrow> Some (srt_to_text nd srt)) = Some (py_str ''hello'') \<and>
   (case encode [\<lparr>seg_id = 0, seg_start = fl 0, seg_end = fl 1, seg_text = py_str ''a''\<rparr>,
                 \<lparr>seg_id = 1, seg_start = fl 2, seg_end = fl 3, seg_text = py_str ''b''\<rparr>]
    of Inl e \<Rightarrow> None | Inr srt \<Rightarrow> Some (srt_to_text nd srt)) = Some (py_str ''a\<newline>b'')"
  unfolding hello_encoding encode_a_b
  by (simp add: srt_simps)

text \<open>
  C7, as the code has it.  The encoding of the empty sequence is the empty text.  For
  every sequence of segments whose times are finite floats and whose trimmed texts are
  not empty and contain no blank line, the output splits into exactly as many blocks as
  there are segments, each followed by exactly one blank line.  (The order of start and
  end plays no part.)
\<close>

theorem encode_blocks:
  assumes "\<forall>seg \<in> set segs. is_finite (seg_start seg) \<and> is_finite (seg_end seg) \<and>
      py_strip (seg_text seg) \<noteq> [] \<and> \<not> has_blank_run (py_strip (seg_text seg))"
  shows "encode [] = Inr [] \<and>
         (\<exists>out. encode segs = Inr out \<and> splits_into_blocks (length segs) out)"
  using encode_splits [OF assms] by (simp add: encode_def)

theorem encode_blocks_witness:
  "py_strip (py_str ''a'') \<noteq> [] \<and> py_strip (py_str ''b'') \<noteq> [] \<and>
   encode [] = Inr [] \<and>
   (\<exists>out. encode [\<lparr>seg_id = 0, seg_start = fl 0, seg_end = fl 1, seg_text = py_str ''a''\<rparr>,
                   \<lparr>seg_id = 1, seg_start = fl 2, seg_end = fl 3, seg_text = py_str ''b''\<rparr>] = Inr out \<and>
      splits_into_blocks
        (length [\<lparr>seg_id = 0, seg_start = fl 0, seg_end = fl 1, seg_text = py_str ''a''\<rparr>,
                 \<lparr>seg_id = 1, seg_start = fl 2, seg_end = fl 3, seg_text = py_str ''b''\<rparr>]) out)"
proof -
  have s: "py_strip (py_str ''a'') = py_str ''a''" "py_strip (py_str ''b'') = py_str ''b''"
    by (simp_all add: py_strip_def py_isspace_def py_str_def)
  have n: "py_strip (py_str ''a'') \<noteq> []" "py_strip (py_str ''b'') \<noteq> []"
    unfolding s by (simp_all add: py_str_def)
  have h: "\<forall>seg \<in> set [\<lparr>seg_id = 0, seg_start = fl 0, seg_end = fl 1, seg_text = py_str ''a''\<rparr>,
                       \<lparr>seg_id = 1, seg_start = fl 2, seg_end = fl 3, seg_text = py_str ''b''\<rparr>].
      is_finite (seg_start seg) \<and> is_finite (seg_end seg) \<and>
      py_strip (seg_text seg) \<noteq> [] \<and> \<not> has_blank_run (py_strip (seg_text seg))"
    using n by (simp add: is_finite_examples s) (simp add: py_str_def)
  from n encode_blocks [OF h] show ?thesis by (intro conjI) simp_all
qed

text \<open>
  C7 as stated fails: one segment from 0 to 1 whose text holds a blank line is written as
  one block, and the output splits at blank lines into two.
\<close>

theorem encode_blocks_counterexample:
  "encode [\<lparr>seg_id = 0, seg_start = fl 0, seg_end = fl 1, seg_text = py_str ''a\<newline>\<newline>b''\<rparr>] =
     Inr (py_str ''1\<newline>00:00:00,000 --> 00:00:01,000\<newline>a\<newline>\<newline>b\<newline>\<newline>'') \<and>
   \<not> splits_into_blocks
       (length [\<lparr>seg_id = 0, seg_start = fl 0, seg_end = fl 1, seg_text = py_str ''a\<newline>\<newline>b''\<rparr>])
       (py_str ''1\<newline>00:00:00,000 --> 00:00:01,000\<newline>a\<newline>\<newline>b\<newline>\<newline>'')"
  using encode_blank_line not_split_blank_line by simp

text \<open>
  C8: encoding the single segment from 0 to 1.5 with text \<open>hello\<close> (and Whisper's id 0)
  produces exactly the index line \<open>1\<close>, the timing line
  \<open>00:00:00,000 --> 00:00:01,500\<close>, the text and a blank line.
\<close>

theorem encode_hello:
  "encode [\<lparr>seg_id = 0, seg_start = fl 0, seg_end = fl (3 / 2), seg_text = py_str ''hello''\<rparr>] =
   Inr (py_str ''1\<newline>00:00:00,000 --> 00:00:01,500\<newline>hello\<newline>\<newline>'')"
  by (rule hello_encoding)

text \<open>
  C9, as the code has it.  For every sequence of segments whose start and end times are
  finite floats the loop runs to its end and returns the text it wrote, no exception
  raised.  For every input text \<open>srt_to_text\<close> returns a text that is no longer than its
  input: the two substitutions and the trimming have no error result, and both
  substitutions are recursions that terminate on every text.
\<close>

theorem codec_total:
  assumes "\<forall>seg \<in> set segs. is_finite (seg_start seg) \<and> is_finite (seg_end seg)"
  shows "(\<exists>out. encode segs = Inr out) \<and> length (srt_to_text nd s) \<le> length s"
  using write_segments_finite [OF assms, of "[]"] length_srt_to_text [of nd s]
  by (simp add: encode_def)

theorem codec_total_witness:
  "is_finite (fl 0) \<and> is_finite (fl (3 / 2)) \<and>
   (\<exists>out. encode [\<lparr>seg_id = 0, seg_start = fl 0, seg_end = fl (3 / 2), seg_text = py_str ''hello''\<rparr>] = Inr out) \<and>
   length (srt_to_text ascii_digits_only (py_str ''just a plain sentence'')) \<le>
     length (py_str ''just a plain sentence'')"
proof -
  have h: "\<forall>seg \<in> set [\<lparr>seg_id = 0, seg_start = fl 0, seg_end = fl (3 / 2), seg_text = py_str ''hello''\<rparr>].
      is_finite (seg_start seg) \<and> is_finite (seg_end seg)"
    by (simp add: is_finite_examples)
  from is_finite_examples(1) is_finite_examples(5)
    codec_total [OF h, of ascii_digits_only "py_str ''just a plain sentence''"]
  show ?thesis by (intro conjI) simp_all
qed

text \<open>
  C9 as stated fails: the encoding is not total over every sequence of segments.  A
  float can be NaN or an infinity, and on a segment with such a start time
  \<open>format_srt_time\<close> raises \<open>ValueError\<close> at \<open>int(seconds // 3600)\<close>, after the index
  line has been written; the same happens at the end time.
\<close>

theorem codec_total_counterexample:
  "encode [\<lparr>seg_id = 0, seg_start = NaN, seg_end = fl 1, seg_text = py_str ''a''\<rparr>] =
     Inl (ValueError, py_str ''1\<newline>'') \<and>
   encode [\<lparr>seg_id = 0, seg_start = PosInf, seg_end = fl 1, seg_text = py_str ''a''\<rparr>] =
     Inl (ValueError, py_str ''1\<newline>'') \<and>
   encode [\<lparr>seg_id = 0, seg_start = fl 0, seg_end = NegInf, seg_text = py_str ''a''\<rparr>] =
     Inl (ValueError, py_str ''1\<newline>'') \<and>
   \<not> (\<exists>out. encode [\<lparr>seg_id = 0, seg_start = NaN, seg_end = fl 1, seg_text = py_str ''a''\<rparr>] =
     Inr out)"
  using format_not_finite
  by (simp add: encode_simps py_str_def fl_simps format_srt_time_0)

text \<open>
  C10: the two scripts implement the same SRT encoding.  On every input
  \<open>format_srt_time\<close> of \<open>extract_mp3.py\<close> returns what \<open>format_srt_time\<close> of
  \<open>lesson_pipeline.py\<close> returns (the same string or the same exception), and the two
  loops of \<open>transcribe_audio\<close> write the same block for the same segment.
\<close>

theorem same_encoding:
  "format_srt_time_mp3 seconds = format_srt_time seconds \<and>
   write_segment_mp3 f segment = write_segment f segment"
proof -
  have t: "format_srt_time_mp3 x = format_srt_time x" for x
    unfolding format_srt_time_mp3_def format_srt_time_def ..
  have "write_segment_mp3 f segment = write_segment f segment"
    unfolding write_segment_mp3_def write_segment_def t ..
  with t show ?thesis by simp
qed

end
